theory Spec2Isabelle
  imports Main "HOL-Library.Word"
begin

section \<open>Data model of \<open>variants_annotator.cc\<close>\<close>

text \<open>
  Modelled from the spec: the declarations of \<open>BED\<close> and \<open>AnnotatedVariant\<close>
  (\<open>bedFile.h\<close>, \<open>variants_annotator.h\<close>) are missing from the translated file. An
  exon is an interval of coordinates with a strand; the variant extends it by the score, the
  four lists, the annotation and the cis-effect window. The coordinate type \<open>CHRPOS\<close> of
  \<open>bedFile.h\<close> and the two distances \<open>intronic_min_distance_\<close> and
  \<open>exonic_min_distance_\<close> of \<open>variants_annotator.h\<close> are unsigned 32-bit integers:
  \<open>+\<close> and \<open>-\<close> wrap around at \<open>2 ^ 32\<close> and the comparisons are those of the
  unsigned values, which is what the operations of the type \<open>32 word\<close> do.
  The field \<open>end\<close> of the source is \<open>endp\<close>. A read outside a vector is the error
  \<open>out_of_range\<close>; an exception of the source is \<open>runtime_error\<close> with its message.
  The index \<open>i\<close> of an exon is a natural number, so a vector of \<open>2 ^ 32\<close> exons or
  more, on which the 32-bit index of the source would wrap, is not covered.
\<close>

datatype error = runtime_error string | out_of_range

type_synonym CHRPOS = "32 word"

record BED =
  chrom :: string
  start :: CHRPOS
  endp :: CHRPOS
  strand :: string

record AnnotatedVariant = BED +
  score :: string
  overlapping_genes :: string
  overlapping_transcripts :: string
  overlapping_distances :: string
  annotation :: string
  cis_effect_start :: CHRPOS
  cis_effect_end :: CHRPOS

text \<open>The option fields of the class \<open>VariantsAnnotator\<close> that the annotation reads.\<close>

record VariantsAnnotator =
  intronic_min_distance :: "32 word"
  exonic_min_distance :: "32 word"
  all_intronic_space :: bool
  all_exonic_space :: bool
  skip_single_exon_genes :: bool

text \<open>
  Modelled from the spec: \<open>common::num_to_str\<close> (\<open>common.h\<close>) is missing from the
  translated file; the score is the distance "as text", so the unsigned number is rendered
  in decimal.
\<close>

fun digits :: "nat \<Rightarrow> string" where
  "digits n =
     (if n < 10 then [''0123456789'' ! n]
      else digits (n div 10) @ [''0123456789'' ! (n mod 10)])"

declare digits.simps [simp del]

definition num_to_str :: "32 word \<Rightarrow> string" where
  "num_to_str n = digits (unat n)"

section \<open>The cis-effect window\<close>

text \<open>
  \<open>set_variant_cis_effect_limits_ps\<close> and \<open>_ns\<close> read \<open>exons[i-1]\<close>, \<open>exons[i+1]\<close>,
  \<open>exons[0]\<close> and \<open>exons[exons.size() - 1]\<close>; all of these are inside the vector exactly
  when \<open>i < exons.size()\<close>. Any other call reads outside the vector, which is the value
  \<open>Inl out_of_range\<close> here.
\<close>

definition set_variant_cis_effect_limits_ps ::
  "BED list \<Rightarrow> AnnotatedVariant \<Rightarrow> nat \<Rightarrow> error + AnnotatedVariant" where
  "set_variant_cis_effect_limits_ps exons variant i =
     (if \<not> i < length exons then Inl out_of_range
      else
        let v1 =
              (if i \<noteq> 0 then
                 (if start (exons ! (i - 1)) < cis_effect_start variant
                  then variant\<lparr>cis_effect_start := start (exons ! (i - 1))\<rparr> else variant)
               else
                 (if start (exons ! 0) < cis_effect_start variant
                  then variant\<lparr>cis_effect_start := start (exons ! 0)\<rparr> else variant));
            v2 =
              (if i \<noteq> length exons - 1 then
                 (if endp (exons ! (i + 1)) > cis_effect_end v1
                  then v1\<lparr>cis_effect_end := endp (exons ! (i + 1))\<rparr> else v1)
               else
                 (if endp (exons ! (length exons - 1)) > cis_effect_end v1
                  then v1\<lparr>cis_effect_end := endp (exons ! (length exons - 1))\<rparr> else v1))
        in Inr v2)"

definition set_variant_cis_effect_limits_ns ::
  "BED list \<Rightarrow> AnnotatedVariant \<Rightarrow> nat \<Rightarrow> error + AnnotatedVariant" where
  "set_variant_cis_effect_limits_ns exons variant i =
     (if \<not> i < length exons then Inl out_of_range
      else
        let v1 =
              (if i \<noteq> 0 then
                 (if endp (exons ! (i - 1)) > cis_effect_end variant
                  then variant\<lparr>cis_effect_end := endp (exons ! (i - 1))\<rparr> else variant)
               else
                 (if endp (exons ! 0) > cis_effect_end variant
                  then variant\<lparr>cis_effect_end := endp (exons ! 0)\<rparr> else variant));
            v2 =
              (if i \<noteq> length exons - 1 then
                 (if start (exons ! (i + 1)) < cis_effect_start v1
                  then v1\<lparr>cis_effect_start := start (exons ! (i + 1))\<rparr> else v1)
               else
                 (if start (exons ! (length exons - 1)) < cis_effect_start v1
                  then v1\<lparr>cis_effect_start := start (exons ! (length exons - 1))\<rparr> else v1))
        in Inr v2)"

text \<open>The dispatch on the strand of \<open>exons[0]\<close>; any other strand leaves the variant as it is.\<close>

definition set_variant_cis_effect_limits ::
  "BED list \<Rightarrow> AnnotatedVariant \<Rightarrow> nat \<Rightarrow> error + AnnotatedVariant" where
  "set_variant_cis_effect_limits exons variant i =
     (if exons = [] then Inl out_of_range
      else
        let transcript_strand = strand (exons ! 0) in
        if transcript_strand = ''+'' then set_variant_cis_effect_limits_ps exons variant i
        else if transcript_strand = ''-'' then set_variant_cis_effect_limits_ns exons variant i
        else Inr variant)"

section \<open>The splice-region classifier\<close>

subsection \<open>Positive strand\<close>

text \<open>
  The four boundary cases of one iteration of the loop of
  \<open>get_variant_overlaps_spliceregion_ps\<close>, in the order of the source; \<open>None\<close> when none
  of them returns.
\<close>

definition ps_boundary_cases ::
  "VariantsAnnotator \<Rightarrow> BED list \<Rightarrow> AnnotatedVariant \<Rightarrow> nat \<Rightarrow> (error + AnnotatedVariant) option" where
  "ps_boundary_cases c exons variant i =
     (if i \<noteq> 0 \<and>
         endp variant \<ge> start (exons ! i) \<and>
         endp variant \<le> endp (exons ! i) \<and>
         endp variant \<le> start (exons ! i) + exonic_min_distance c
      then Some (set_variant_cis_effect_limits exons
             (variant\<lparr>score := num_to_str (min (endp variant - start (exons ! i))
                                              (endp (exons ! i) - endp variant)),
                      annotation := ''splicing_exonic''\<rparr>) i)
      else if endp variant < start (exons ! i) \<and>
         endp variant \<ge> start (exons ! i) - intronic_min_distance c \<and>
         i \<noteq> 0 \<and> endp variant > endp (exons ! (i - 1))
      then Some (set_variant_cis_effect_limits exons
             (variant\<lparr>score := num_to_str (min (endp variant - endp (exons ! (i - 1)))
                                              (start (exons ! i) - endp variant)),
                      annotation := ''splicing_intronic''\<rparr>) i)
      else if i \<noteq> length exons - 1 \<and>
         endp variant \<le> endp (exons ! i) \<and>
         endp variant \<ge> start (exons ! i) \<and>
         endp variant \<ge> endp (exons ! i) - exonic_min_distance c
      then Some (set_variant_cis_effect_limits exons
             (variant\<lparr>score := num_to_str (min (endp variant - start (exons ! i))
                                              (endp (exons ! i) - endp variant)),
                      annotation := ''splicing_exonic''\<rparr>) i)
      else if endp variant > endp (exons ! i) \<and>
         endp variant \<le> endp (exons ! i) + intronic_min_distance c \<and>
         i \<noteq> length exons - 1 \<and> endp variant < start (exons ! (i + 1))
      then Some (set_variant_cis_effect_limits exons
             (variant\<lparr>score := num_to_str (min (endp variant - endp (exons ! i))
                                              (start (exons ! (i + 1)) - endp variant)),
                      annotation := ''splicing_intronic''\<rparr>) i)
      else None)"

text \<open>
  One iteration of the loop: the whole-exon and whole-intron modes, the early termination
  ("the rest of the exons are outside the junction"), then the boundary cases.
\<close>

definition ps_iteration ::
  "VariantsAnnotator \<Rightarrow> BED list \<Rightarrow> AnnotatedVariant \<Rightarrow> nat \<Rightarrow> (error + AnnotatedVariant) option" where
  "ps_iteration c exons variant i =
     (if all_exonic_space c \<and>
         endp variant \<ge> start (exons ! i) \<and>
         endp variant \<le> endp (exons ! i)
      then Some (Inr (variant\<lparr>score := num_to_str (min (endp variant - start (exons ! i))
                                                      (endp (exons ! i) - endp variant)),
                              annotation := ''exonic''\<rparr>))
      else if all_intronic_space c \<and>
         i \<noteq> length exons - 1 \<and>
         endp variant > endp (exons ! i) \<and> endp variant < start (exons ! (i + 1))
      then Some (Inr (variant\<lparr>score := num_to_str (min (endp variant - endp (exons ! i))
                                                      (start (exons ! (i + 1)) - endp variant)),
                              annotation := ''intronic''\<rparr>))
      else if start (exons ! i) - intronic_min_distance c > endp variant
      then Some (Inr variant)
      else ps_boundary_cases c exons variant i)"

function ps_loop ::
  "VariantsAnnotator \<Rightarrow> BED list \<Rightarrow> AnnotatedVariant \<Rightarrow> nat \<Rightarrow> error + AnnotatedVariant" where
  "ps_loop c exons variant i =
     (if i < length exons then
        (case ps_iteration c exons variant i of
           Some r \<Rightarrow> r
         | None \<Rightarrow> ps_loop c exons variant (i + 1))
      else Inr variant)"
  by pat_completeness auto
termination
  by (relation "measure (\<lambda>(c, exons, variant, i). length exons - i)") auto

declare ps_loop.simps [simp del]

text \<open>
  The check "variant inside transcript coords" reads \<open>exons[0]\<close> and
  \<open>exons[exons.size() - 1]\<close>: on an empty vector that is a read outside it.
\<close>

definition get_variant_overlaps_spliceregion_ps ::
  "VariantsAnnotator \<Rightarrow> BED list \<Rightarrow> AnnotatedVariant \<Rightarrow> error + AnnotatedVariant" where
  "get_variant_overlaps_spliceregion_ps c exons variant0 =
     (let variant = variant0\<lparr>score := ''-1'', annotation := ''non_splice_region''\<rparr> in
      if exons = [] then Inl out_of_range
      else if start (exons ! 0) > endp variant \<or>
              endp (exons ! (length exons - 1)) < endp variant
      then Inr variant
      else ps_loop c exons variant 0)"

subsection \<open>Negative strand\<close>

definition ns_boundary_cases ::
  "VariantsAnnotator \<Rightarrow> BED list \<Rightarrow> AnnotatedVariant \<Rightarrow> nat \<Rightarrow> (error + AnnotatedVariant) option" where
  "ns_boundary_cases c exons variant i =
     (if i \<noteq> length exons - 1 \<and> endp variant \<ge> start (exons ! i) \<and>
         endp variant \<le> endp (exons ! i) \<and>
         endp variant \<le> start (exons ! i) + exonic_min_distance c
      then Some (set_variant_cis_effect_limits exons
             (variant\<lparr>score := num_to_str (min (endp variant - start (exons ! i))
                                              (endp (exons ! i) - endp variant)),
                      annotation := ''splicing_exonic''\<rparr>) i)
      else if endp variant < start (exons ! i) \<and>
         endp variant \<ge> start (exons ! i) - intronic_min_distance c \<and>
         i \<noteq> length exons - 1 \<and> endp variant > endp (exons ! (i + 1))
      then Some (set_variant_cis_effect_limits exons
             (variant\<lparr>score := num_to_str (min (endp variant - endp (exons ! (i + 1)))
                                              (start (exons ! i) - endp variant)),
                      annotation := ''splicing_intronic''\<rparr>) i)
      else if i \<noteq> 0 \<and>
         endp variant \<le> endp (exons ! i) \<and>
         endp variant \<ge> start (exons ! i) \<and>
         endp variant \<ge> endp (exons ! i) - exonic_min_distance c
      then Some (set_variant_cis_effect_limits exons
             (variant\<lparr>score := num_to_str (min (endp variant - start (exons ! i))
                                              (endp (exons ! i) - endp variant)),
                      annotation := ''splicing_exonic''\<rparr>) i)
      else if endp variant > endp (exons ! i) \<and>
         endp variant \<le> endp (exons ! i) + intronic_min_distance c \<and>
         i \<noteq> 0 \<and> endp variant < start (exons ! (i - 1))
      then Some (set_variant_cis_effect_limits exons
             (variant\<lparr>score := num_to_str (min (endp variant - endp (exons ! i))
                                              (start (exons ! (i - 1)) - endp variant)),
                      annotation := ''splicing_intronic''\<rparr>) i)
      else None)"

definition ns_iteration ::
  "VariantsAnnotator \<Rightarrow> BED list \<Rightarrow> AnnotatedVariant \<Rightarrow> nat \<Rightarrow> (error + AnnotatedVariant) option" where
  "ns_iteration c exons variant i =
     (if all_exonic_space c \<and>
         endp variant \<ge> start (exons ! i) \<and> endp variant \<le> endp (exons ! i)
      then Some (Inr (variant\<lparr>score := num_to_str (min (endp variant - start (exons ! i))
                                                      (endp (exons ! i) - endp variant)),
                              annotation := ''exonic''\<rparr>))
      else if all_intronic_space c \<and>
         i \<noteq> length exons - 1 \<and> endp variant < start (exons ! i) \<and>
         endp variant > endp (exons ! (i + 1))
      then Some (Inr (variant\<lparr>score := num_to_str (min (endp variant - endp (exons ! (i + 1)))
                                                      (start (exons ! i) - endp variant)),
                              annotation := ''intronic''\<rparr>))
      else if endp (exons ! i) + intronic_min_distance c < endp variant
      then Some (Inr variant)
      else ns_boundary_cases c exons variant i)"

function ns_loop ::
  "VariantsAnnotator \<Rightarrow> BED list \<Rightarrow> AnnotatedVariant \<Rightarrow> nat \<Rightarrow> error + AnnotatedVariant" where
  "ns_loop c exons variant i =
     (if i < length exons then
        (case ns_iteration c exons variant i of
           Some r \<Rightarrow> r
         | None \<Rightarrow> ns_loop c exons variant (i + 1))
      else Inr variant)"
  by pat_completeness auto
termination
  by (relation "measure (\<lambda>(c, exons, variant, i). length exons - i)") auto

declare ns_loop.simps [simp del]

definition get_variant_overlaps_spliceregion_ns ::
  "VariantsAnnotator \<Rightarrow> BED list \<Rightarrow> AnnotatedVariant \<Rightarrow> error + AnnotatedVariant" where
  "get_variant_overlaps_spliceregion_ns c exons variant0 =
     (let variant = variant0\<lparr>score := ''-1'', annotation := ''non_splice_region''\<rparr> in
      if exons = [] then Inl out_of_range
      else if start (exons ! (length exons - 1)) > endp variant \<or>
              endp (exons ! 0) < endp variant
      then Inr variant
      else ns_loop c exons variant 0)"

subsection \<open>Dispatch on the strand\<close>

definition get_variant_overlaps_spliceregion ::
  "VariantsAnnotator \<Rightarrow> BED list \<Rightarrow> AnnotatedVariant \<Rightarrow> error + AnnotatedVariant" where
  "get_variant_overlaps_spliceregion c exons variant =
     (if exons = [] then Inl out_of_range
      else
        let transcript_strand = strand (exons ! 0) in
        if transcript_strand = ''+'' then get_variant_overlaps_spliceregion_ps c exons variant
        else if transcript_strand = ''-'' then get_variant_overlaps_spliceregion_ns c exons variant
        else Inl (runtime_error (''Unknown strand '' @ transcript_strand)))"

section \<open>The classifier without the early termination\<close>

text \<open>
  The same two procedures with the statement "the rest of the exons are outside the
  junction" taken out of the loop body and nothing else changed. They are what the
  procedures of the source are compared with.
\<close>

definition ps_iteration_no_shortcut ::
  "VariantsAnnotator \<Rightarrow> BED list \<Rightarrow> AnnotatedVariant \<Rightarrow> nat \<Rightarrow> (error + AnnotatedVariant) option" where
  "ps_iteration_no_shortcut c exons variant i =
     (if all_exonic_space c \<and>
         endp variant \<ge> start (exons ! i) \<and>
         endp variant \<le> endp (exons ! i)
      then Some (Inr (variant\<lparr>score := num_to_str (min (endp variant - start (exons ! i))
                                                      (endp (exons ! i) - endp variant)),
                              annotation := ''exonic''\<rparr>))
      else if all_intronic_space c \<and>
         i \<noteq> length exons - 1 \<and>
         endp variant > endp (exons ! i) \<and> endp variant < start (exons ! (i + 1))
      then Some (Inr (variant\<lparr>score := num_to_str (min (endp variant - endp (exons ! i))
                                                      (start (exons ! (i + 1)) - endp variant)),
                              annotation := ''intronic''\<rparr>))
      else ps_boundary_cases c exons variant i)"

function ps_loop_no_shortcut ::
  "VariantsAnnotator \<Rightarrow> BED list \<Rightarrow> AnnotatedVariant \<Rightarrow> nat \<Rightarrow> error + AnnotatedVariant" where
  "ps_loop_no_shortcut c exons variant i =
     (if i < length exons then
        (case ps_iteration_no_shortcut c exons variant i of
           Some r \<Rightarrow> r
         | None \<Rightarrow> ps_loop_no_shortcut c exons variant (i + 1))
      else Inr variant)"
  by pat_completeness auto
termination
  by (relation "measure (\<lambda>(c, exons, variant, i). length exons - i)") auto

declare ps_loop_no_shortcut.simps [simp del]

definition ps_no_shortcut ::
  "VariantsAnnotator \<Rightarrow> BED list \<Rightarrow> AnnotatedVariant \<Rightarrow> error + AnnotatedVariant" where
  "ps_no_shortcut c exons variant0 =
     (let variant = variant0\<lparr>score := ''-1'', annotation := ''non_splice_region''\<rparr> in
      if exons = [] then Inl out_of_range
      else if start (exons ! 0) > endp variant \<or>
              endp (exons ! (length exons - 1)) < endp variant
      then Inr variant
      else ps_loop_no_shortcut c exons variant 0)"

definition ns_iteration_no_shortcut ::
  "VariantsAnnotator \<Rightarrow> BED list \<Rightarrow> AnnotatedVariant \<Rightarrow> nat \<Rightarrow> (error + AnnotatedVariant) option" where
  "ns_iteration_no_shortcut c exons variant i =
     (if all_exonic_space c \<and>
         endp variant \<ge> start (exons ! i) \<and> endp variant \<le> endp (exons ! i)
      then Some (Inr (variant\<lparr>score := num_to_str (min (endp variant - start (exons ! i))
                                                      (endp (exons ! i) - endp variant)),
                              annotation := ''exonic''\<rparr>))
      else if all_intronic_space c \<and>
         i \<noteq> length exons - 1 \<and> endp variant < start (exons ! i) \<and>
         endp variant > endp (exons ! (i + 1))
      then Some (Inr (variant\<lparr>score := num_to_str (min (endp variant - endp (exons ! (i + 1)))
                                                      (start (exons ! i) - endp variant)),
                              annotation := ''intronic''\<rparr>))
      else ns_boundary_cases c exons variant i)"

function ns_loop_no_shortcut ::
  "VariantsAnnotator \<Rightarrow> BED list \<Rightarrow> AnnotatedVariant \<Rightarrow> nat \<Rightarrow> error + AnnotatedVariant" where
  "ns_loop_no_shortcut c exons variant i =
     (if i < length exons then
        (case ns_iteration_no_shortcut c exons variant i of
           Some r \<Rightarrow> r
         | None \<Rightarrow> ns_loop_no_shortcut c exons variant (i + 1))
      else Inr variant)"
  by pat_completeness auto
termination
  by (relation "measure (\<lambda>(c, exons, variant, i). length exons - i)") auto

declare ns_loop_no_shortcut.simps [simp del]

definition ns_no_shortcut ::
  "VariantsAnnotator \<Rightarrow> BED list \<Rightarrow> AnnotatedVariant \<Rightarrow> error + AnnotatedVariant" where
  "ns_no_shortcut c exons variant0 =
     (let variant = variant0\<lparr>score := ''-1'', annotation := ''non_splice_region''\<rparr> in
      if exons = [] then Inl out_of_range
      else if start (exons ! (length exons - 1)) > endp variant \<or>
              endp (exons ! 0) < endp variant
      then Inr variant
      else ns_loop_no_shortcut c exons variant 0)"

section \<open>The aggregator\<close>

text \<open>
  Modelled from the spec: the feature store \<open>gtf_\<close> (class \<open>GtfParser\<close>) is missing from
  the translated file; its three lookups are parameters. The same holds for the constants of
  the bin scheme (\<open>_binFirstShift\<close>, \<open>_binNextShift\<close>, \<open>_binLevels\<close>,
  \<open>_binOffsetsExtended\<close>), which the aggregator only passes on. A bin (\<open>BIN\<close>) is an
  unsigned 32-bit number, kept here as the integer that is its value: \<open>x >> n\<close> is
  \<open>x div 2 ^ n\<close> and a sum is taken \<open>mod 2 ^ 32\<close>. The counter \<open>b\<close> of the loop over
  the bins of a level is not wrapped, so a range of bins that ends at \<open>2 ^ 32 - 1\<close>, the
  only one on which the loop of the source does not end, ends here.
\<close>

record GtfParser =
  transcripts_from_bin :: "string \<Rightarrow> int \<Rightarrow> string list"
  get_exons_from_transcript :: "string \<Rightarrow> BED list"
  get_gene_from_transcript :: "string \<Rightarrow> string"

record BinScheme =
  binFirstShift :: nat
  binNextShift :: nat
  binLevels :: nat
  binOffsetsExtended :: "nat \<Rightarrow> int"

text \<open>
  The local variables of \<open>annotate_record_with_transcripts\<close> that live across the loops:
  the variant and the four strings \<open>overlapping_genes\<close>, \<open>overlapping_transcripts\<close>,
  \<open>overlapping_distances\<close>, \<open>annotations\<close> (here \<open>loc_genes\<close>, \<open>loc_transcripts\<close>,
  \<open>loc_distances\<close>, \<open>annotations\<close>, since the variant has fields of the same names) and
  the set \<open>unique_genes\<close>.
\<close>

record annotate_locals =
  variant :: AnnotatedVariant
  loc_genes :: string
  loc_transcripts :: string
  loc_distances :: string
  annotations :: string
  unique_genes :: "string set"

text \<open>
  Modelled from the spec: the constructor \<open>AnnotatedVariant(chr, start, end)\<close> is declared
  in \<open>variants_annotator.h\<close>; the cis-effect window is "initialized to the variant's own
  coordinates" and each list holds the sentinel \<open>NA\<close>.
\<close>

definition new_AnnotatedVariant :: "string \<Rightarrow> CHRPOS \<Rightarrow> CHRPOS \<Rightarrow> AnnotatedVariant" where
  "new_AnnotatedVariant chr1 start1 end1 =
     \<lparr>chrom = chr1, start = start1, endp = end1, strand = [],
      score = [], overlapping_genes = ''NA'', overlapping_transcripts = ''NA'',
      overlapping_distances = ''NA'', annotation = ''NA'',
      cis_effect_start = start1, cis_effect_end = end1\<rparr>"

text \<open>The body of the innermost loop, for the transcript \<open>transcripts[i]\<close>.\<close>

definition annotate_transcript ::
  "VariantsAnnotator \<Rightarrow> GtfParser \<Rightarrow> annotate_locals \<Rightarrow> string \<Rightarrow> error + annotate_locals" where
  "annotate_transcript c gtf st transcript =
     (let exons = get_exons_from_transcript gtf transcript in
      if length exons = 0
      then Inl (runtime_error (''Unexpected error. No exons for transcript '' @ transcript))
      else if skip_single_exon_genes c \<and> length exons = 1 then Inr st
      else
        (case get_variant_overlaps_spliceregion c exons (variant st) of
           Inl e \<Rightarrow> Inl e
         | Inr v \<Rightarrow>
             if annotation v \<noteq> ''non_splice_region'' then
               let gene_id = get_gene_from_transcript gtf transcript;
                   annotation1 = annotation v;
                   dist_str = score v
               in
                 if loc_transcripts st \<noteq> ''NA'' then
                   Inr (st\<lparr>variant := v,
                           loc_genes :=
                             (if gene_id \<notin> unique_genes st
                              then loc_genes st @ '','' @ gene_id else loc_genes st),
                           unique_genes :=
                             (if gene_id \<notin> unique_genes st
                              then insert gene_id (unique_genes st) else unique_genes st),
                           loc_distances := loc_distances st @ '','' @ dist_str,
                           loc_transcripts := loc_transcripts st @ '','' @ transcript,
                           annotations := annotations st @ '','' @ annotation1\<rparr>)
                 else
                   Inr (st\<lparr>variant := v,
                           loc_genes := gene_id,
                           loc_distances := dist_str,
                           loc_transcripts := transcript,
                           unique_genes := insert gene_id (unique_genes st),
                           annotations := annotation1\<rparr>)
             else Inr (st\<lparr>variant := v\<rparr>)))"

primrec transcripts_loop ::
  "VariantsAnnotator \<Rightarrow> GtfParser \<Rightarrow> annotate_locals \<Rightarrow> string list \<Rightarrow> error + annotate_locals" where
  "transcripts_loop c gtf st [] = Inr st"
| "transcripts_loop c gtf st (t # ts) =
     (case annotate_transcript c gtf st t of
        Inl e \<Rightarrow> Inl e
      | Inr st' \<Rightarrow> transcripts_loop c gtf st' ts)"

function bins_loop ::
  "VariantsAnnotator \<Rightarrow> GtfParser \<Rightarrow> string \<Rightarrow> int \<Rightarrow> int \<Rightarrow> annotate_locals \<Rightarrow> error + annotate_locals" where
  "bins_loop c gtf chr b end_b st =
     (if b \<le> end_b then
        (case transcripts_loop c gtf st (transcripts_from_bin gtf chr b) of
           Inl e \<Rightarrow> Inl e
         | Inr st' \<Rightarrow> bins_loop c gtf chr (b + 1) end_b st')
      else Inr st)"
  by pat_completeness auto
termination
  by (relation "measure (\<lambda>(c, gtf, chr, b, end_b, st). nat (end_b + 1 - b))") auto

declare bins_loop.simps [simp del]

function levels_loop ::
  "VariantsAnnotator \<Rightarrow> GtfParser \<Rightarrow> BinScheme \<Rightarrow> string \<Rightarrow> nat \<Rightarrow> int \<Rightarrow> int \<Rightarrow> annotate_locals
     \<Rightarrow> error + annotate_locals" where
  "levels_loop c gtf bs chr i start_bin end_bin st =
     (if i < binLevels bs then
        (let offset = binOffsetsExtended bs i in
         case bins_loop c gtf chr ((start_bin + offset) mod 2 ^ 32)
                ((end_bin + offset) mod 2 ^ 32) st of
           Inl e \<Rightarrow> Inl e
         | Inr st' \<Rightarrow>
             levels_loop c gtf bs chr (i + 1)
               (start_bin div 2 ^ binNextShift bs) (end_bin div 2 ^ binNextShift bs) st')
      else Inr st)"
  by pat_completeness auto
termination
  by (relation "measure (\<lambda>(c, gtf, bs, chr, i, start_bin, end_bin, st). binLevels bs - i)") auto

declare levels_loop.simps [simp del]

text \<open>
  \<open>annotate_record_with_transcripts\<close> for the record with chromosome \<open>chr\<close> and 0-based
  position \<open>pos\<close> (\<open>vcf_record_->pos\<close>). The difference and the sum with
  \<open>intronic_min_distance_\<close> are unsigned 32-bit numbers, so the difference wraps around for
  a position below the distance.
\<close>

definition annotate_record_with_transcripts ::
  "VariantsAnnotator \<Rightarrow> GtfParser \<Rightarrow> BinScheme \<Rightarrow> string \<Rightarrow> CHRPOS \<Rightarrow> error + AnnotatedVariant" where
  "annotate_record_with_transcripts c gtf bs chr pos =
     (let st0 = \<lparr>variant = new_AnnotatedVariant chr pos (pos + 1),
                 loc_genes = ''NA'', loc_transcripts = ''NA'', loc_distances = ''NA'',
                 annotations = ''NA'', unique_genes = {}\<rparr>;
          start_bin = uint (pos - intronic_min_distance c) div 2 ^ binFirstShift bs;
          end_bin = uint (pos + intronic_min_distance c) div 2 ^ binFirstShift bs
      in
        case levels_loop c gtf bs chr 0 start_bin end_bin st0 of
          Inl e \<Rightarrow> Inl e
        | Inr st \<Rightarrow>
            Inr ((variant st)\<lparr>annotation := annotations st,
                               overlapping_genes := loc_genes st,
                               overlapping_transcripts := loc_transcripts st,
                               overlapping_distances := loc_distances st\<rparr>))"

text \<open>
  The transcripts in the order in which the three nested loops meet them: level by level,
  within a level bin by bin, within a bin in the order of \<open>transcripts_from_bin\<close>.
\<close>

function level_transcripts ::
  "GtfParser \<Rightarrow> BinScheme \<Rightarrow> string \<Rightarrow> nat \<Rightarrow> int \<Rightarrow> int \<Rightarrow> string list" where
  "level_transcripts gtf bs chr i start_bin end_bin =
     (if i < binLevels bs then
        concat (map (transcripts_from_bin gtf chr)
                  [(start_bin + binOffsetsExtended bs i) mod 2 ^ 32 ..
                   (end_bin + binOffsetsExtended bs i) mod 2 ^ 32])
        @ level_transcripts gtf bs chr (i + 1)
            (start_bin div 2 ^ binNextShift bs) (end_bin div 2 ^ binNextShift bs)
      else [])"
  by pat_completeness auto
termination
  by (relation "measure (\<lambda>(gtf, bs, chr, i, start_bin, end_bin). binLevels bs - i)") auto

declare level_transcripts.simps [simp del]

definition candidate_transcripts ::
  "VariantsAnnotator \<Rightarrow> GtfParser \<Rightarrow> BinScheme \<Rightarrow> string \<Rightarrow> CHRPOS \<Rightarrow> string list" where
  "candidate_transcripts c gtf bs chr pos =
     level_transcripts gtf bs chr 0
       (uint (pos - intronic_min_distance c) div 2 ^ binFirstShift bs)
       (uint (pos + intronic_min_distance c) div 2 ^ binFirstShift bs)"

section \<open>Vocabulary of the properties\<close>

text \<open>The classification of a result: its annotation label and its score.\<close>

definition label_score :: "error + AnnotatedVariant \<Rightarrow> error + string \<times> string" where
  "label_score r = (case r of Inl e \<Rightarrow> Inl e | Inr v \<Rightarrow> Inr (annotation v, score v))"

text \<open>Exons are intervals: the start of each is not above its end.\<close>

definition well_formed :: "BED list \<Rightarrow> bool" where
  "well_formed exons = list_all (\<lambda>b. start b \<le> endp b) exons"

definition ascending_by_start :: "BED list \<Rightarrow> bool" where
  "ascending_by_start exons = sorted_wrt (\<lambda>a b. start a \<le> start b) exons"

definition descending_by_end :: "BED list \<Rightarrow> bool" where
  "descending_by_end exons = sorted_wrt (\<lambda>a b. endp b \<le> endp a) exons"





text \<open>
  No wrap-around in the test of the early termination: \<open>exons[i].start -
  intronic_min_distance_\<close> of the \<open>+\<close> procedure does not fall below 0, and
  \<open>exons[i].end + intronic_min_distance_\<close> of the \<open>-\<close> procedure does not reach
  \<open>2 ^ 32\<close>, for any exon of the list.
\<close>

definition no_wrap_ps :: "VariantsAnnotator \<Rightarrow> BED list \<Rightarrow> bool" where
  "no_wrap_ps c exons = list_all (\<lambda>b. intronic_min_distance c \<le> start b) exons"

definition no_wrap_ns :: "VariantsAnnotator \<Rightarrow> BED list \<Rightarrow> bool" where
  "no_wrap_ns c exons = list_all (\<lambda>b. endp b \<le> endp b + intronic_min_distance c) exons"

text \<open>
  The reflection \<open>x \<mapsto> m - x\<close> of the coordinates. It swaps the start and the end of an
  exon and keeps its place in the list, so the mirror image of an ascending list runs from
  the highest exon to the lowest. The transcript is mirrored about its midpoint with
  \<open>m\<close> the sum of its lowest and its highest coordinate.
\<close>

definition mirror_exon :: "CHRPOS \<Rightarrow> BED \<Rightarrow> BED" where
  "mirror_exon m b = b\<lparr>start := m - endp b, endp := m - start b, strand := ''-''\<rparr>"

definition mirror_variant :: "CHRPOS \<Rightarrow> AnnotatedVariant \<Rightarrow> AnnotatedVariant" where
  "mirror_variant m v = v\<lparr>start := m - endp v - 1, endp := m - endp v\<rparr>"

definition transcript_mirror_sum :: "BED list \<Rightarrow> CHRPOS" where
  "transcript_mirror_sum exons = start (hd exons) + endp (last exons)"

definition mirror_transcript :: "BED list \<Rightarrow> BED list" where
  "mirror_transcript exons = map (mirror_exon (transcript_mirror_sum exons)) exons"

text \<open>
  No wrap-around on the list and on its mirror image about \<open>m\<close>: every exon is an
  interval below \<open>m\<close>, and neither its start minus \<open>intronic_min_distance\<close> nor its
  end minus \<open>exonic_min_distance\<close> falls below 0, nor do the same two differences of its
  reflected interval, from \<open>m - end\<close> to \<open>m - start\<close>. Its start plus
  \<open>exonic_min_distance\<close> and its end plus \<open>intronic_min_distance\<close> are then at most
  \<open>m\<close>, so they do not reach \<open>2 ^ 32\<close>, and so for the reflected interval.
\<close>

definition no_wrap_mirror :: "VariantsAnnotator \<Rightarrow> CHRPOS \<Rightarrow> BED list \<Rightarrow> bool" where
  "no_wrap_mirror c m exons =
     list_all (\<lambda>b. start b \<le> endp b \<and> endp b \<le> m \<and>
                   intronic_min_distance c \<le> start b \<and>
                   exonic_min_distance c \<le> endp b \<and>
                   intronic_min_distance c \<le> m - endp b \<and>
                   exonic_min_distance c \<le> m - start b) exons"


text \<open>
  A score that is the text of a number between zero and the larger of the two configured
  distances.
\<close>

definition bounded_score :: "VariantsAnnotator \<Rightarrow> string \<Rightarrow> bool" where
  "bounded_score c s =
     (\<exists>n. s = num_to_str n \<and> 0 \<le> n \<and>
          n \<le> max (exonic_min_distance c) (intronic_min_distance c))"

text \<open>The cis-effect window of \<open>w\<close> contains the one of \<open>v\<close>.\<close>

definition window_widened :: "AnnotatedVariant \<Rightarrow> AnnotatedVariant \<Rightarrow> bool" where
  "window_widened v w =
     (cis_effect_start w \<le> cis_effect_start v \<and> cis_effect_end v \<le> cis_effect_end w)"

text \<open>The two fatal errors, with the messages the source gives them.\<close>

definition UnknownStrand :: "string \<Rightarrow> error" where
  "UnknownStrand s = runtime_error (''Unknown strand '' @ s)"

definition MissingExons :: "string \<Rightarrow> error" where
  "MissingExons t = runtime_error (''Unexpected error. No exons for transcript '' @ t)"

text \<open>
  The locals of \<open>annotate_record_with_transcripts\<close> before the first loop, and the variant it
  returns from the locals after the last.
\<close>

definition initial_locals :: "string \<Rightarrow> CHRPOS \<Rightarrow> annotate_locals" where
  "initial_locals chr pos =
     \<lparr>variant = new_AnnotatedVariant chr pos (pos + 1),
      loc_genes = ''NA'', loc_transcripts = ''NA'', loc_distances = ''NA'',
      annotations = ''NA'', unique_genes = {}\<rparr>"

definition returned_variant :: "annotate_locals \<Rightarrow> AnnotatedVariant" where
  "returned_variant st =
     (variant st)\<lparr>annotation := annotations st,
                   overlapping_genes := loc_genes st,
                   overlapping_transcripts := loc_transcripts st,
                   overlapping_distances := loc_distances st\<rparr>"

text \<open>
  The error that the spec names for a candidate transcript: \<open>MissingExons\<close> for an empty
  exon list, \<open>UnknownStrand\<close> for a transcript that reaches the classifier with a strand that
  is neither \<open>+\<close> nor \<open>-\<close>. \<open>first_error\<close> is the error of the first candidate, in the
  order of the loops, that has one.
\<close>

definition raised_error :: "VariantsAnnotator \<Rightarrow> GtfParser \<Rightarrow> string \<Rightarrow> error option" where
  "raised_error c gtf t =
     (let exons = get_exons_from_transcript gtf t in
      if exons = [] then Some (MissingExons t)
      else if skip_single_exon_genes c \<and> length exons = 1 then None
      else if strand (hd exons) \<noteq> ''+'' \<and> strand (hd exons) \<noteq> ''-''
      then Some (UnknownStrand (strand (hd exons)))
      else None)"

primrec first_error :: "VariantsAnnotator \<Rightarrow> GtfParser \<Rightarrow> string list \<Rightarrow> error option" where
  "first_error c gtf [] = None"
| "first_error c gtf (t # ts) =
     (case raised_error c gtf t of Some e \<Rightarrow> Some e | None \<Rightarrow> first_error c gtf ts)"

text \<open>The feature store with every single-exon transcript taken out of every bin.\<close>

definition without_single_exon_transcripts :: "GtfParser \<Rightarrow> GtfParser" where
  "without_single_exon_transcripts gtf =
     gtf\<lparr>transcripts_from_bin :=
            (\<lambda>chr b. filter (\<lambda>t. length (get_exons_from_transcript gtf t) \<noteq> 1)
                        (transcripts_from_bin gtf chr b))\<rparr>"

text \<open>
  Two variants at the same working coordinate with the same label and score, the first
  with a cis-effect window that contains the window of the second.
\<close>

definition same_class_wider :: "AnnotatedVariant \<Rightarrow> AnnotatedVariant \<Rightarrow> bool" where
  "same_class_wider v v' =
     (endp v = endp v' \<and> score v = score v' \<and> annotation v = annotation v' \<and>
      window_widened v' v)"

text \<open>A variant that keeps the working coordinate of \<open>v\<close> and has a window containing its window.\<close>

definition same_place_wider :: "AnnotatedVariant \<Rightarrow> AnnotatedVariant \<Rightarrow> bool" where
  "same_place_wider v w = (endp w = endp v \<and> window_widened v w)"

text \<open>
  The lists of the aggregator as the source builds them: the sentinel \<open>NA\<close> for no entry,
  otherwise the entries with a comma between neighbours. \<open>first_seen\<close> keeps the first
  occurrence of every element.
\<close>

definition comma_join :: "string list \<Rightarrow> string" where
  "comma_join xs =
     (case xs of [] \<Rightarrow> ''NA'' | x # ys \<Rightarrow> foldl (\<lambda>acc y. acc @ '','' @ y) x ys)"

definition first_seen :: "'a list \<Rightarrow> 'a list" where
  "first_seen xs = rev (remdups (rev xs))"

text \<open>
  What the classifier says about the transcript \<open>t\<close> for the variant \<open>v\<close>: whether it is
  classified at all and splice-relevant, and with which label and score.
\<close>

definition splice_relevant ::
  "VariantsAnnotator \<Rightarrow> GtfParser \<Rightarrow> AnnotatedVariant \<Rightarrow> string \<Rightarrow> bool" where
  "splice_relevant c gtf v t =
     (\<not> (skip_single_exon_genes c \<and> length (get_exons_from_transcript gtf t) = 1) \<and>
      (case get_variant_overlaps_spliceregion c (get_exons_from_transcript gtf t) v of
         Inl e \<Rightarrow> False
       | Inr w \<Rightarrow> annotation w \<noteq> ''non_splice_region''))"

definition transcript_label ::
  "VariantsAnnotator \<Rightarrow> GtfParser \<Rightarrow> AnnotatedVariant \<Rightarrow> string \<Rightarrow> string" where
  "transcript_label c gtf v t =
     (case get_variant_overlaps_spliceregion c (get_exons_from_transcript gtf t) v of
        Inl e \<Rightarrow> [] | Inr w \<Rightarrow> annotation w)"

definition transcript_score ::
  "VariantsAnnotator \<Rightarrow> GtfParser \<Rightarrow> AnnotatedVariant \<Rightarrow> string \<Rightarrow> string" where
  "transcript_score c gtf v t =
     (case get_variant_overlaps_spliceregion c (get_exons_from_transcript gtf t) v of
        Inl e \<Rightarrow> [] | Inr w \<Rightarrow> score w)"

text \<open>
  The locals hold the lists of the splice-relevant transcripts \<open>seen\<close> so far, for a variant
  that started as \<open>v0\<close>.
\<close>

definition lists_hold ::
  "VariantsAnnotator \<Rightarrow> GtfParser \<Rightarrow> AnnotatedVariant \<Rightarrow> annotate_locals \<Rightarrow> string list \<Rightarrow> bool" where
  "lists_hold c gtf v0 st seen =
     (same_place_wider v0 (variant st) \<and>
      loc_transcripts st = comma_join seen \<and>
      loc_distances st = comma_join (map (transcript_score c gtf v0) seen) \<and>
      annotations st = comma_join (map (transcript_label c gtf v0) seen) \<and>
      loc_genes st = comma_join (first_seen (map (get_gene_from_transcript gtf) seen)) \<and>
      unique_genes st = set (map (get_gene_from_transcript gtf) seen))"

section \<open>Concrete inputs\<close>

definition default_options :: VariantsAnnotator where
  "default_options =
     \<lparr>intronic_min_distance = 2, exonic_min_distance = 3,
      all_intronic_space = False, all_exonic_space = False,
      skip_single_exon_genes = True\<rparr>"

definition exon :: "CHRPOS \<Rightarrow> CHRPOS \<Rightarrow> string \<Rightarrow> BED" where
  "exon s e str = \<lparr>chrom = ''1'', start = s, endp = e, strand = str\<rparr>"

definition variant_at :: "CHRPOS \<Rightarrow> AnnotatedVariant" where
  "variant_at p = new_AnnotatedVariant ''1'' (p - 1) p"

definition plus_transcript :: "BED list" where
  "plus_transcript = [exon 100 200 ''+'', exon 300 400 ''+'']"

text \<open>The mirror image of \<open>plus_transcript\<close>: the list runs from the highest exon down.\<close>

definition minus_transcript :: "BED list" where
  "minus_transcript = [exon 300 400 ''-'', exon 100 200 ''-'']"

text \<open>
  The same intervals as \<open>minus_transcript\<close> on the \<open>-\<close> strand, stored ascending by
  start.
\<close>

definition ascending_minus_transcript :: "BED list" where
  "ascending_minus_transcript = [exon 100 200 ''-'', exon 300 400 ''-'']"

text \<open>A \<open>+\<close> transcript whose first exon starts below \<open>intronic_min_distance\<close>.\<close>

definition low_plus_transcript :: "BED list" where
  "low_plus_transcript = [exon 1 10 ''+'', exon 20 30 ''+'']"

text \<open>A list sorted ascending by start in which the first exon spans the other two.\<close>

definition nested_minus_transcript :: "BED list" where
  "nested_minus_transcript = [exon 100 400 ''-'', exon 150 200 ''-'', exon 250 352 ''-'']"

text \<open>
  A feature store for the examples: the transcripts \<open>ts\<close> sit in bin 0 of chromosome 1
  and every transcript belongs to the gene \<open>G1\<close>. \<open>E0\<close> has no exon, \<open>S1\<close> has a single
  exon, \<open>U1\<close> has a strand that is neither \<open>+\<close> nor \<open>-\<close>, \<open>T2\<close> has three exons, and
  every other name has the two exons of \<open>plus_transcript\<close>.
\<close>

definition unknown_strand_transcript :: "BED list" where
  "unknown_strand_transcript = [exon 100 200 ''.'', exon 300 400 ''.'']"

definition test_exons :: "string \<Rightarrow> BED list" where
  "test_exons t =
     (if t = ''E0'' then []
      else if t = ''S1'' then [exon 100 200 ''+'']
      else if t = ''U1'' then unknown_strand_transcript
      else if t = ''T2'' then [exon 100 200 ''+'', exon 300 400 ''+'', exon 500 600 ''+'']
      else plus_transcript)"

definition test_gtf :: "string list \<Rightarrow> GtfParser" where
  "test_gtf ts =
     \<lparr>transcripts_from_bin = (\<lambda>chr b. if chr = ''1'' \<and> b = 0 then ts else []),
      get_exons_from_transcript = test_exons,
      get_gene_from_transcript = (\<lambda>t. ''G1'')\<rparr>"

definition test_bins :: BinScheme where
  "test_bins =
     \<lparr>binFirstShift = 14, binNextShift = 3, binLevels = 2,
      binOffsetsExtended = (\<lambda>i. if i = 0 then 1 else 0)\<rparr>"

definition exonic_options :: VariantsAnnotator where
  "exonic_options = default_options\<lparr>all_exonic_space := True\<rparr>"

section \<open>Basic facts\<close>

lemma label_score_simps [simp]:
  "label_score (Inr v) = Inr (annotation v, score v)"
  "label_score (Inl e) = Inl e"
  by (simp_all add: label_score_def)

lemma mirror_exon_simps [simp]:
  "start (mirror_exon m b) = m - endp b"
  "endp (mirror_exon m b) = m - start b"
  "strand (mirror_exon m b) = ''-''"
  by (simp_all add: mirror_exon_def)

subsection \<open>What the cis-effect functions return\<close>

lemma cis_ps_result:
  assumes "i < length exons"
  shows "set_variant_cis_effect_limits_ps exons v i =
           Inr (v\<lparr>cis_effect_start :=
                    min (cis_effect_start v) (start (exons ! (if i = 0 then 0 else i - 1))),
                  cis_effect_end :=
                    max (cis_effect_end v)
                      (endp (exons ! (if i = length exons - 1 then i else i + 1)))\<rparr>)"
  using assms
  by (simp add: set_variant_cis_effect_limits_ps_def Let_def)

lemma cis_ns_result:
  assumes "i < length exons"
  shows "set_variant_cis_effect_limits_ns exons v i =
           Inr (v\<lparr>cis_effect_start :=
                    min (cis_effect_start v)
                      (start (exons ! (if i = length exons - 1 then i else i + 1))),
                  cis_effect_end :=
                    max (cis_effect_end v) (endp (exons ! (if i = 0 then 0 else i - 1)))\<rparr>)"
  using assms
  by (simp add: set_variant_cis_effect_limits_ns_def Let_def)

lemma cis_frame:
  assumes "i < length exons"
  shows "\<exists>a b. set_variant_cis_effect_limits exons v i
                  = Inr (v\<lparr>cis_effect_start := a, cis_effect_end := b\<rparr>)
            \<and> a \<le> cis_effect_start v \<and> cis_effect_end v \<le> b"
proof -
  have ne: "exons \<noteq> []" using assms by auto
  consider (p) "strand (exons ! 0) = ''+''" | (n) "strand (exons ! 0) = ''-''"
    | (o) "strand (exons ! 0) \<noteq> ''+''" "strand (exons ! 0) \<noteq> ''-''" by blast
  then show ?thesis
  proof cases
    case p
    then have "set_variant_cis_effect_limits exons v i
        = set_variant_cis_effect_limits_ps exons v i"
      using ne by (simp add: set_variant_cis_effect_limits_def)
    then show ?thesis
      unfolding cis_ps_result [OF assms]
      by (intro exI conjI) (assumption, simp_all)
  next
    case n
    then have "set_variant_cis_effect_limits exons v i
        = set_variant_cis_effect_limits_ns exons v i"
      using ne by (simp add: set_variant_cis_effect_limits_def)
    then show ?thesis
      unfolding cis_ns_result [OF assms]
      by (intro exI conjI) (assumption, simp_all)
  next
    case o
    then have "set_variant_cis_effect_limits exons v i
        = Inr (v\<lparr>cis_effect_start := cis_effect_start v, cis_effect_end := cis_effect_end v\<rparr>)"
      using ne by (simp add: set_variant_cis_effect_limits_def)
    then show ?thesis
      by (intro exI conjI) (assumption, simp_all)
  qed
qed

lemma label_score_cis [simp]:
  "i < length exons \<Longrightarrow>
     label_score (set_variant_cis_effect_limits exons v i) = Inr (annotation v, score v)"
  using cis_frame [of i exons v] by auto

lemma cis_Inr: "i < length exons \<Longrightarrow> \<exists>w. set_variant_cis_effect_limits exons v i = Inr w"
  using cis_frame [of i exons v] by blast

subsection \<open>The classifier returns a variant on every non-empty exon list\<close>

lemma ps_boundary_Inr:
  assumes "i < length exons" "ps_boundary_cases c exons v i = Some r"
  shows "\<exists>w. r = Inr w"
  using assms cis_Inr [of i exons]
  by (simp add: ps_boundary_cases_def split: if_splits) metis+

lemma ns_boundary_Inr:
  assumes "i < length exons" "ns_boundary_cases c exons v i = Some r"
  shows "\<exists>w. r = Inr w"
  using assms cis_Inr [of i exons]
  by (simp add: ns_boundary_cases_def split: if_splits) metis+

lemma ps_iteration_Inr:
  assumes "i < length exons" "ps_iteration c exons v i = Some r"
  shows "\<exists>w. r = Inr w"
  using assms ps_boundary_Inr [of i exons c v r]
  by (auto simp: ps_iteration_def split: if_splits)

lemma ns_iteration_Inr:
  assumes "i < length exons" "ns_iteration c exons v i = Some r"
  shows "\<exists>w. r = Inr w"
  using assms ns_boundary_Inr [of i exons c v r]
  by (auto simp: ns_iteration_def split: if_splits)

lemma ps_loop_Inr: "\<exists>w. ps_loop c exons v i = Inr w"
proof (induction c exons v i rule: ps_loop.induct)
  case (1 c exons v i)
  show ?case
  proof (cases "i < length exons")
    case False
    then show ?thesis by (simp add: ps_loop.simps)
  next
    case True
    show ?thesis
    proof (cases "ps_iteration c exons v i")
      case None
      with True 1 show ?thesis by (simp add: ps_loop.simps [of c exons v i])
    next
      case (Some r)
      with True ps_iteration_Inr [of i exons c v r] show ?thesis
        by (auto simp: ps_loop.simps [of c exons v i])
    qed
  qed
qed

lemma ns_loop_Inr: "\<exists>w. ns_loop c exons v i = Inr w"
proof (induction c exons v i rule: ns_loop.induct)
  case (1 c exons v i)
  show ?case
  proof (cases "i < length exons")
    case False
    then show ?thesis by (simp add: ns_loop.simps)
  next
    case True
    show ?thesis
    proof (cases "ns_iteration c exons v i")
      case None
      with True 1 show ?thesis by (simp add: ns_loop.simps [of c exons v i])
    next
      case (Some r)
      with True ns_iteration_Inr [of i exons c v r] show ?thesis
        by (auto simp: ns_loop.simps [of c exons v i])
    qed
  qed
qed

lemma ps_Inr: "exons \<noteq> [] \<Longrightarrow> \<exists>w. get_variant_overlaps_spliceregion_ps c exons v = Inr w"
  using ps_loop_Inr by (simp add: get_variant_overlaps_spliceregion_ps_def Let_def)

lemma ns_Inr: "exons \<noteq> [] \<Longrightarrow> \<exists>w. get_variant_overlaps_spliceregion_ns c exons v = Inr w"
  using ns_loop_Inr by (simp add: get_variant_overlaps_spliceregion_ns_def Let_def)

section \<open>The cis-effect window only widens\<close>

text \<open>
  C8. For every exon list, every strand and every index \<open>i\<close> of an exon of the list, the
  limit calculator returns a variant whose \<open>cis_effect_start\<close> is at most the prior one and
  whose \<open>cis_effect_end\<close> is at least the prior one. At the first exon the place of the
  missing neighbour is taken by exon \<open>i\<close> itself, and so at the last exon: on the \<open>+\<close>
  strand the start is then the smaller of the prior start and the start of exon \<open>i\<close> (the
  end, at the last exon, the larger of the prior end and the end of exon \<open>i\<close>); on the
  \<open>-\<close> strand the same with start and end exchanged.
\<close>

theorem cis_effect_limits_only_widen:
  assumes "i < length exons"
  shows "(\<exists>w. set_variant_cis_effect_limits_ps exons v i = Inr w \<and> window_widened v w \<and>
            (i = 0 \<longrightarrow> cis_effect_start w = min (cis_effect_start v) (start (exons ! i))) \<and>
            (i = length exons - 1 \<longrightarrow>
               cis_effect_end w = max (cis_effect_end v) (endp (exons ! i)))) \<and>
         (\<exists>w. set_variant_cis_effect_limits_ns exons v i = Inr w \<and> window_widened v w \<and>
            (i = 0 \<longrightarrow> cis_effect_end w = max (cis_effect_end v) (endp (exons ! i))) \<and>
            (i = length exons - 1 \<longrightarrow>
               cis_effect_start w = min (cis_effect_start v) (start (exons ! i)))) \<and>
         (\<exists>w. set_variant_cis_effect_limits exons v i = Inr w \<and> window_widened v w)"
proof -
  have ps: "\<exists>w. set_variant_cis_effect_limits_ps exons v i = Inr w \<and> window_widened v w \<and>
            (i = 0 \<longrightarrow> cis_effect_start w = min (cis_effect_start v) (start (exons ! i))) \<and>
            (i = length exons - 1 \<longrightarrow>
               cis_effect_end w = max (cis_effect_end v) (endp (exons ! i)))"
    by (simp add: cis_ps_result [OF assms] window_widened_def)
  have ns: "\<exists>w. set_variant_cis_effect_limits_ns exons v i = Inr w \<and> window_widened v w \<and>
            (i = 0 \<longrightarrow> cis_effect_end w = max (cis_effect_end v) (endp (exons ! i))) \<and>
            (i = length exons - 1 \<longrightarrow>
               cis_effect_start w = min (cis_effect_start v) (start (exons ! i)))"
    by (simp add: cis_ns_result [OF assms] window_widened_def)
  have d: "\<exists>w. set_variant_cis_effect_limits exons v i = Inr w \<and> window_widened v w"
    using cis_frame [OF assms, of v] by (auto simp: window_widened_def)
  show ?thesis using ps ns d by blast
qed

theorem cis_effect_limits_only_widen_witness:
  "(0::nat) < length plus_transcript \<and>
   set_variant_cis_effect_limits_ps plus_transcript (variant_at 250) 0
     = Inr ((variant_at 250)\<lparr>cis_effect_start := 100, cis_effect_end := 400\<rparr>) \<and>
   set_variant_cis_effect_limits_ns plus_transcript (variant_at 250) 0
     = Inr ((variant_at 250)\<lparr>cis_effect_start := 249, cis_effect_end := 250\<rparr>)"
  using cis_effect_limits_only_widen [of 0 plus_transcript "variant_at 250"]
  by (simp add: plus_transcript_def exon_def variant_at_def new_AnnotatedVariant_def
      set_variant_cis_effect_limits_ps_def set_variant_cis_effect_limits_ns_def)

section \<open>The check against the transcript coordinates\<close>










section \<open>Worked scenarios\<close>

text \<open>
  C3. On the \<open>+\<close>-strand transcript with exons \<open>[100,200]\<close> and \<open>[300,400]\<close>, in proximity
  mode with exonic distance 3 and intronic distance 2, the classifier answers
  \<open>splicing_exonic\<close> with score 1 at the working coordinate 199, \<open>splicing_intronic\<close> with
  score 2 at 202, and \<open>non_splice_region\<close> with score -1 at 250.
\<close>

theorem worked_scenarios_ps:
  "label_score (get_variant_overlaps_spliceregion_ps default_options plus_transcript (variant_at 199))
     = Inr (''splicing_exonic'', ''1'') \<and>
   label_score (get_variant_overlaps_spliceregion_ps default_options plus_transcript (variant_at 202))
     = Inr (''splicing_intronic'', ''2'') \<and>
   label_score (get_variant_overlaps_spliceregion_ps default_options plus_transcript (variant_at 250))
     = Inr (''non_splice_region'', ''-1'')"
  by code_simp

section \<open>The score in proximity mode\<close>

lemma above_within: "(a::32 word) \<le> x \<Longrightarrow> x \<le> a + d \<Longrightarrow> x - a \<le> d"
  by unat_arith

lemma below_within: "(x::32 word) \<le> a \<Longrightarrow> a - d \<le> x \<Longrightarrow> a - x \<le> d"
  by unat_arith

lemma bounded_scoreI:
  "p \<le> exonic_min_distance c \<or> p \<le> intronic_min_distance c \<or>
   q \<le> exonic_min_distance c \<or> q \<le> intronic_min_distance c \<Longrightarrow>
     bounded_score c (num_to_str (min p q))"
  unfolding bounded_score_def
  by (rule exI [of _ "min p q"]) (auto simp: min_le_iff_disj le_max_iff_disj)

lemma ps_boundary_bound:
  assumes "i < length exons" "ps_boundary_cases c exons v i = Some r"
  shows "\<exists>lab s. label_score r = Inr (lab, s) \<and> bounded_score c s"
proof -
  from assms(2) consider
      (A) "start (exons ! i) \<le> endp v" "endp v \<le> start (exons ! i) + exonic_min_distance c"
        "r = set_variant_cis_effect_limits exons
               (v\<lparr>score := num_to_str (min (endp v - start (exons ! i))
                                                (endp (exons ! i) - endp v)),
                  annotation := ''splicing_exonic''\<rparr>) i"
    | (B) "endp v < start (exons ! i)" "start (exons ! i) - intronic_min_distance c \<le> endp v"
        "r = set_variant_cis_effect_limits exons
               (v\<lparr>score := num_to_str (min (endp v - endp (exons ! (i - 1)))
                                                (start (exons ! i) - endp v)),
                  annotation := ''splicing_intronic''\<rparr>) i"
    | (C) "endp v \<le> endp (exons ! i)" "endp (exons ! i) - exonic_min_distance c \<le> endp v"
        "r = set_variant_cis_effect_limits exons
               (v\<lparr>score := num_to_str (min (endp v - start (exons ! i))
                                                (endp (exons ! i) - endp v)),
                  annotation := ''splicing_exonic''\<rparr>) i"
    | (D) "endp (exons ! i) < endp v" "endp v \<le> endp (exons ! i) + intronic_min_distance c"
        "r = set_variant_cis_effect_limits exons
               (v\<lparr>score := num_to_str (min (endp v - endp (exons ! i))
                                                (start (exons ! (i + 1)) - endp v)),
                  annotation := ''splicing_intronic''\<rparr>) i"
    unfolding ps_boundary_cases_def by (simp split: if_splits)
  then show ?thesis
  proof cases
    case A
    from above_within [OF A(1,2)] show ?thesis
      unfolding A(3) by (simp add: assms(1) bounded_scoreI)
  next
    case B
    from below_within [OF less_imp_le [OF B(1)] B(2)] show ?thesis
      unfolding B(3) by (simp add: assms(1) bounded_scoreI)
  next
    case C
    from below_within [OF C(1,2)] show ?thesis
      unfolding C(3) by (simp add: assms(1) bounded_scoreI)
  next
    case D
    from above_within [OF less_imp_le [OF D(1)] D(2)] show ?thesis
      unfolding D(3) by (simp add: assms(1) bounded_scoreI)
  qed
qed

lemma ns_boundary_bound:
  assumes "i < length exons" "ns_boundary_cases c exons v i = Some r"
  shows "\<exists>lab s. label_score r = Inr (lab, s) \<and> bounded_score c s"
proof -
  from assms(2) consider
      (A) "start (exons ! i) \<le> endp v" "endp v \<le> start (exons ! i) + exonic_min_distance c"
        "r = set_variant_cis_effect_limits exons
               (v\<lparr>score := num_to_str (min (endp v - start (exons ! i))
                                                (endp (exons ! i) - endp v)),
                  annotation := ''splicing_exonic''\<rparr>) i"
    | (B) "endp v < start (exons ! i)" "start (exons ! i) - intronic_min_distance c \<le> endp v"
        "r = set_variant_cis_effect_limits exons
               (v\<lparr>score := num_to_str (min (endp v - endp (exons ! (i + 1)))
                                                (start (exons ! i) - endp v)),
                  annotation := ''splicing_intronic''\<rparr>) i"
    | (C) "endp v \<le> endp (exons ! i)" "endp (exons ! i) - exonic_min_distance c \<le> endp v"
        "r = set_variant_cis_effect_limits exons
               (v\<lparr>score := num_to_str (min (endp v - start (exons ! i))
                                                (endp (exons ! i) - endp v)),
                  annotation := ''splicing_exonic''\<rparr>) i"
    | (D) "endp (exons ! i) < endp v" "endp v \<le> endp (exons ! i) + intronic_min_distance c"
        "r = set_variant_cis_effect_limits exons
               (v\<lparr>score := num_to_str (min (endp v - endp (exons ! i))
                                                (start (exons ! (i - 1)) - endp v)),
                  annotation := ''splicing_intronic''\<rparr>) i"
    unfolding ns_boundary_cases_def by (simp split: if_splits)
  then show ?thesis
  proof cases
    case A
    from above_within [OF A(1,2)] show ?thesis
      unfolding A(3) by (simp add: assms(1) bounded_scoreI)
  next
    case B
    from below_within [OF less_imp_le [OF B(1)] B(2)] show ?thesis
      unfolding B(3) by (simp add: assms(1) bounded_scoreI)
  next
    case C
    from below_within [OF C(1,2)] show ?thesis
      unfolding C(3) by (simp add: assms(1) bounded_scoreI)
  next
    case D
    from above_within [OF less_imp_le [OF D(1)] D(2)] show ?thesis
      unfolding D(3) by (simp add: assms(1) bounded_scoreI)
  qed
qed

lemma ps_loop_bound:
  assumes "\<not> all_exonic_space c" "\<not> all_intronic_space c"
  shows "ps_loop c exons v i = Inr v \<or>
         (\<exists>lab s. label_score (ps_loop c exons v i) = Inr (lab, s) \<and> bounded_score c s)"
  using assms
proof (induction c exons v i rule: ps_loop.induct)
  case (1 c exons v i)
  show ?case
  proof (cases "i < length exons")
    case False
    then show ?thesis by (simp add: ps_loop.simps)
  next
    case True
    show ?thesis
    proof (cases "ps_iteration c exons v i")
      case None
      with True 1 show ?thesis by (simp add: ps_loop.simps [of c exons v i])
    next
      case (Some r)
      then have "r = Inr v \<or> ps_boundary_cases c exons v i = Some r"
        using "1.prems" by (simp add: ps_iteration_def split: if_splits)
      with True Some ps_boundary_bound [of i exons c v r] show ?thesis
        by (auto simp: ps_loop.simps [of c exons v i])
    qed
  qed
qed

lemma ns_loop_bound:
  assumes "\<not> all_exonic_space c" "\<not> all_intronic_space c"
  shows "ns_loop c exons v i = Inr v \<or>
         (\<exists>lab s. label_score (ns_loop c exons v i) = Inr (lab, s) \<and> bounded_score c s)"
  using assms
proof (induction c exons v i rule: ns_loop.induct)
  case (1 c exons v i)
  show ?case
  proof (cases "i < length exons")
    case False
    then show ?thesis by (simp add: ns_loop.simps)
  next
    case True
    show ?thesis
    proof (cases "ns_iteration c exons v i")
      case None
      with True 1 show ?thesis by (simp add: ns_loop.simps [of c exons v i])
    next
      case (Some r)
      then have "r = Inr v \<or> ns_boundary_cases c exons v i = Some r"
        using "1.prems" by (simp add: ns_iteration_def split: if_splits)
      with True Some ns_boundary_bound [of i exons c v r] show ?thesis
        by (auto simp: ns_loop.simps [of c exons v i])
    qed
  qed
qed

text \<open>
  C5. In proximity mode (\<open>all_exonic_space\<close> and \<open>all_intronic_space\<close> both off), for
  every exon list and every variant, a score that the classifier returns and that is not
  \<open>-1\<close> is the text of an integer between 0 and the larger of \<open>exonic_min_distance\<close> and
  \<open>intronic_min_distance\<close>. This holds for the \<open>+\<close> procedure, the \<open>-\<close> procedure and
  the dispatch on the strand.
\<close>

theorem score_bound_proximity:
  assumes "\<not> all_exonic_space c" and "\<not> all_intronic_space c"
  shows "\<forall>w. (get_variant_overlaps_spliceregion_ps c exons v = Inr w \<or>
              get_variant_overlaps_spliceregion_ns c exons v = Inr w \<or>
              get_variant_overlaps_spliceregion c exons v = Inr w) \<longrightarrow>
             score w \<noteq> ''-1'' \<longrightarrow> bounded_score c (score w)"
proof -
  have ps: "score w \<noteq> ''-1'' \<longrightarrow> bounded_score c (score w)"
    if "get_variant_overlaps_spliceregion_ps c exons v = Inr w" for w
    using that ps_loop_bound [OF assms, of exons
        "v\<lparr>score := ''-1'', annotation := ''non_splice_region''\<rparr>" 0]
    by (auto simp: get_variant_overlaps_spliceregion_ps_def Let_def split: if_splits)
  have ns: "score w \<noteq> ''-1'' \<longrightarrow> bounded_score c (score w)"
    if "get_variant_overlaps_spliceregion_ns c exons v = Inr w" for w
    using that ns_loop_bound [OF assms, of exons
        "v\<lparr>score := ''-1'', annotation := ''non_splice_region''\<rparr>" 0]
    by (auto simp: get_variant_overlaps_spliceregion_ns_def Let_def split: if_splits)
  have d: "score w \<noteq> ''-1'' \<longrightarrow> bounded_score c (score w)"
    if "get_variant_overlaps_spliceregion c exons v = Inr w" for w
    using that ps ns
    by (auto simp: get_variant_overlaps_spliceregion_def Let_def split: if_splits)
  show ?thesis using ps ns d by blast
qed

theorem score_bound_proximity_witness:
  "\<not> all_exonic_space default_options \<and> \<not> all_intronic_space default_options \<and>
   get_variant_overlaps_spliceregion_ps default_options plus_transcript (variant_at 202)
     = Inr ((variant_at 202)\<lparr>score := ''2'', annotation := ''splicing_intronic'',
                              cis_effect_start := 100, cis_effect_end := 400\<rparr>) \<and>
   bounded_score default_options ''2''"
proof -
  have h1: "\<not> all_exonic_space default_options"
    and h2: "\<not> all_intronic_space default_options"
    by (simp_all add: default_options_def)
  have e: "get_variant_overlaps_spliceregion_ps default_options plus_transcript (variant_at 202)
     = Inr ((variant_at 202)\<lparr>score := ''2'', annotation := ''splicing_intronic'',
                              cis_effect_start := 100, cis_effect_end := 400\<rparr>)"
    by code_simp
  have "bounded_score default_options ''2''"
    using score_bound_proximity [OF h1 h2, of plus_transcript "variant_at 202"] e by auto
  with h1 h2 e show ?thesis by simp
qed

section \<open>Strand symmetry\<close>

subsection \<open>Reflection of unsigned coordinates\<close>

lemma mirror_le: "(a::32 word) \<le> m \<Longrightarrow> b \<le> m \<Longrightarrow> (m - a \<le> m - b) = (b \<le> a)"
  by unat_arith

lemma mirror_less: "(a::32 word) \<le> m \<Longrightarrow> b \<le> m \<Longrightarrow> (m - a < m - b) = (b < a)"
  unfolding not_le [symmetric] by (simp add: mirror_le)

lemma mirror_diff: "((m::32 word) - x) - (m - e) = e - x"
  by simp

lemma mirror_up:
  assumes "(x::32 word) \<le> m" "s \<le> m" "d \<le> s"
  shows "(m - x \<le> m - s + d) = (s - d \<le> x)"
proof -
  have mx: "unat (m - x) = unat m - unat x" using assms(1) by (simp add: unat_sub)
  have ms: "unat (m - s) = unat m - unat s" using assms(2) by (simp add: unat_sub)
  have sd: "unat (s - d) = unat s - unat d" using assms(3) by (simp add: unat_sub)
  have le: "unat x \<le> unat m" "unat s \<le> unat m" "unat d \<le> unat s"
    using assms by (simp_all add: word_le_nat_alt)
  then have "unat (m - s) + unat d \<le> unat m" using ms by simp
  then have "unat (m - s) + unat d < 2 ^ 32" using unsigned_less [of m, where 'a = nat] by simp
  then have msd: "unat (m - s + d) = unat m - unat s + unat d"
    by (simp add: unat_add_lem [THEN iffD1] ms)
  show ?thesis
    using le by (simp add: word_le_nat_alt mx msd sd) linarith
qed

lemma mirror_up_less:
  "(x::32 word) \<le> m \<Longrightarrow> s \<le> m \<Longrightarrow> d \<le> s \<Longrightarrow> (m - s + d < m - x) = (x < s - d)"
  unfolding not_le [symmetric] by (simp add: mirror_up)

lemma mirror_down:
  assumes "(x::32 word) \<le> m" "e \<le> m" "d \<le> m - e"
  shows "(m - e - d \<le> m - x) = (x \<le> e + d)"
proof -
  have me: "unat (m - e) = unat m - unat e" using assms(2) by (simp add: unat_sub)
  have de: "unat d \<le> unat m - unat e" using assms(3) me by (simp add: word_le_nat_alt)
  have med: "unat (m - e - d) = unat m - unat e - unat d"
    using assms(3) me by (simp add: unat_sub)
  have mx: "unat (m - x) = unat m - unat x" using assms(1) by (simp add: unat_sub)
  have le: "unat x \<le> unat m" "unat e \<le> unat m"
    using assms by (simp_all add: word_le_nat_alt)
  then have "unat e + unat d \<le> unat m" using de by simp
  then have "unat e + unat d < 2 ^ 32" using unsigned_less [of m, where 'a = nat] by simp
  then have ed: "unat (e + d) = unat e + unat d" by (simp add: unat_add_lem [THEN iffD1])
  show ?thesis
    using le de by (simp add: word_le_nat_alt med mx ed) linarith
qed

lemma beyond_mirror: "(m::32 word) < x \<Longrightarrow> a \<le> m \<Longrightarrow> a < m - x"
  by unat_arith

subsection \<open>The two procedures on a list and its mirror image\<close>

lemma no_wrap_mirror_nth:
  assumes "no_wrap_mirror c m exons" "j < length exons"
  shows "intronic_min_distance c \<le> start (exons ! j)"
    and "exonic_min_distance c \<le> endp (exons ! j)"
    and "start (exons ! j) \<le> endp (exons ! j)"
    and "endp (exons ! j) \<le> m"
    and "intronic_min_distance c \<le> m - endp (exons ! j)"
    and "exonic_min_distance c \<le> m - start (exons ! j)"
    and "start (exons ! j) \<le> m"
proof -
  show h: "intronic_min_distance c \<le> start (exons ! j)"
    "exonic_min_distance c \<le> endp (exons ! j)"
    "start (exons ! j) \<le> endp (exons ! j)"
    "endp (exons ! j) \<le> m"
    "intronic_min_distance c \<le> m - endp (exons ! j)"
    "exonic_min_distance c \<le> m - start (exons ! j)"
    using assms by (simp_all add: no_wrap_mirror_def list_all_length)
  then show "start (exons ! j) \<le> m" by simp
qed

lemma boundary_mirror:
  assumes "i < length exons" "no_wrap_mirror c m exons" "endp v \<le> m"
    and "endp v' = m - endp v" "annotation v' = annotation v" "score v' = score v"
  shows "map_option label_score (ps_boundary_cases c exons v i)
       = map_option label_score (ns_boundary_cases c (map (mirror_exon m) exons) v' i)"
proof -
  note wm = no_wrap_mirror_nth [OF assms(2)]
  consider (single) "i = 0" "i = length exons - 1"
    | (first) "i = 0" "i \<noteq> length exons - 1" "i + 1 < length exons"
    | (last) "i \<noteq> 0" "i = length exons - 1" "i - 1 < length exons"
    | (inner) "i \<noteq> 0" "i \<noteq> length exons - 1" "i + 1 < length exons" "i - 1 < length exons"
    using assms(1) by linarith
  then show ?thesis
  proof cases
    case single
    with assms show ?thesis
      by (simp add: ps_boundary_cases_def ns_boundary_cases_def)
  next
    case first
    with assms wm [OF assms(1)] wm [OF first(3)] show ?thesis
      by (simp add: ps_boundary_cases_def ns_boundary_cases_def min.commute
          mirror_le mirror_less mirror_up mirror_down)
  next
    case last
    with assms wm [OF assms(1)] wm [OF last(3)] show ?thesis
      by (simp add: ps_boundary_cases_def ns_boundary_cases_def min.commute
          mirror_le mirror_less mirror_up mirror_down)
  next
    case inner
    have x: "endp (exons ! i) < endp v \<Longrightarrow> \<not> endp v < start (exons ! i)"
      "endp v < start (exons ! i) \<Longrightarrow> \<not> endp (exons ! i) < endp v"
      using wm(3) [OF assms(1)] by auto
    from inner assms wm [OF assms(1)] wm [OF inner(3)] wm [OF inner(4)] x show ?thesis
      by (simp add: ps_boundary_cases_def ns_boundary_cases_def min.commute
          mirror_le mirror_less mirror_up mirror_down) auto
  qed
qed

lemma iteration_mirror:
  assumes "i < length exons" "no_wrap_mirror c m exons" "endp v \<le> m"
    and "endp v' = m - endp v" "annotation v' = annotation v" "score v' = score v"
  shows "map_option label_score (ps_iteration c exons v i)
       = map_option label_score (ns_iteration c (map (mirror_exon m) exons) v' i)"
proof -
  note wm = no_wrap_mirror_nth [OF assms(2)]
  note b = boundary_mirror [OF assms]
  show ?thesis
  proof (cases "i = length exons - 1")
    case True
    with assms wm [OF assms(1)] b show ?thesis
      by (simp add: ps_iteration_def ns_iteration_def min.commute
          mirror_le mirror_less mirror_up_less)
  next
    case False
    then have n: "i + 1 < length exons" using assms(1) by simp
    from False n assms wm [OF assms(1)] wm [OF n] b show ?thesis
      by (simp add: ps_iteration_def ns_iteration_def min.commute
          mirror_le mirror_less mirror_up_less)
  qed
qed

lemma loop_mirror:
  assumes "no_wrap_mirror c m exons" "endp v \<le> m"
    and "endp v' = m - endp v" "annotation v' = annotation v" "score v' = score v"
  shows "label_score (ps_loop c exons v i)
       = label_score (ns_loop c (map (mirror_exon m) exons) v' i)"
  using assms
proof (induction c exons v i rule: ps_loop.induct)
  case (1 c exons v i)
  show ?case
  proof (cases "i < length exons")
    case False
    with "1.prems" show ?thesis by (simp add: ps_loop.simps ns_loop.simps)
  next
    case True
    note it = iteration_mirror [OF True "1.prems"]
    show ?thesis
    proof (cases "ps_iteration c exons v i")
      case None
      with it have "ns_iteration c (map (mirror_exon m) exons) v' i = None" by simp
      with None True 1 show ?thesis
        by (simp add: ps_loop.simps [of c exons v i]
            ns_loop.simps [of c "map (mirror_exon m) exons" v' i])
    next
      case (Some r)
      with it obtain r' where "ns_iteration c (map (mirror_exon m) exons) v' i = Some r'"
        and "label_score r = label_score r'"
        by (cases "ns_iteration c (map (mirror_exon m) exons) v' i") auto
      with Some True show ?thesis
        by (simp add: ps_loop.simps [of c exons v i]
            ns_loop.simps [of c "map (mirror_exon m) exons" v' i])
    qed
  qed
qed

lemma ps_ns_mirror:
  assumes "no_wrap_mirror c m exons"
  shows "label_score (get_variant_overlaps_spliceregion_ps c exons v)
       = label_score (get_variant_overlaps_spliceregion_ns c (map (mirror_exon m) exons)
           (mirror_variant m v))"
proof (cases "exons = []")
  case True
  then show ?thesis
    by (simp add: get_variant_overlaps_spliceregion_ps_def
        get_variant_overlaps_spliceregion_ns_def)
next
  case False
  then have l: "0 < length exons" "length exons - 1 < length exons" by simp_all
  note first = no_wrap_mirror_nth [OF assms l(1)]
  note last = no_wrap_mirror_nth [OF assms l(2)]
  show ?thesis
  proof (cases "endp v \<le> m")
    case True
    then have t: "endp (v\<lparr>score := ''-1'', annotation := ''non_splice_region''\<rparr>) \<le> m"
      by simp
    from True False l first last
      loop_mirror [OF assms t,
        where v' = "(mirror_variant m v)\<lparr>score := ''-1'', annotation := ''non_splice_region''\<rparr>"
          and i = 0]
    show ?thesis
      by (simp add: get_variant_overlaps_spliceregion_ps_def
          get_variant_overlaps_spliceregion_ns_def mirror_variant_def Let_def mirror_less)
  next
    case beyond: False
    then have "endp (exons ! (length exons - 1)) < endp v"
      using last(4) by simp
    moreover have "m - start (exons ! 0) < m - endp v"
      using beyond first(7) by (intro beyond_mirror) (simp_all add: word_sub_le)
    ultimately show ?thesis
      using False l
      by (simp add: get_variant_overlaps_spliceregion_ps_def
          get_variant_overlaps_spliceregion_ns_def mirror_variant_def Let_def)
  qed
qed

text \<open>
  C1 (as amended). For every exon list on which, and on whose mirror image, no exon
  boundary plus or minus its distance wraps around (\<open>no_wrap_mirror\<close>, with \<open>m\<close> the
  sum of the start of the first and the end of the last exon), and for every variant
  coordinate, the \<open>+\<close> procedure on the list and the \<open>-\<close> procedure on its
  mirror image give the same annotation label and the same score, and so does the dispatch
  on the strand for a \<open>+\<close> transcript and its mirror image. The mirror image reflects
  every exon interval, and the variant, about the midpoint of the transcript, gives every
  exon the strand \<open>-\<close> and keeps it at its place in the list: the mirror image of an
  ascending list runs from the highest exon to the lowest.
\<close>

theorem strand_symmetry:
  assumes "no_wrap_mirror c (transcript_mirror_sum exons) exons"
  shows "label_score (get_variant_overlaps_spliceregion_ps c exons v)
           = label_score (get_variant_overlaps_spliceregion_ns c (mirror_transcript exons)
               (mirror_variant (transcript_mirror_sum exons) v)) \<and>
         (exons \<noteq> [] \<and> strand (hd exons) = ''+'' \<longrightarrow>
            label_score (get_variant_overlaps_spliceregion c exons v)
              = label_score (get_variant_overlaps_spliceregion c (mirror_transcript exons)
                  (mirror_variant (transcript_mirror_sum exons) v)))"
proof -
  have a: "label_score (get_variant_overlaps_spliceregion_ps c exons v)
           = label_score (get_variant_overlaps_spliceregion_ns c (mirror_transcript exons)
               (mirror_variant (transcript_mirror_sum exons) v))"
    unfolding mirror_transcript_def by (rule ps_ns_mirror [OF assms])
  have "get_variant_overlaps_spliceregion c exons v
          = get_variant_overlaps_spliceregion_ps c exons v"
    and "get_variant_overlaps_spliceregion c (mirror_transcript exons) w
          = get_variant_overlaps_spliceregion_ns c (mirror_transcript exons) w"
    if "exons \<noteq> []" "strand (hd exons) = ''+''" for w
    using that
    by (simp_all add: get_variant_overlaps_spliceregion_def mirror_transcript_def hd_conv_nth)
  with a show ?thesis by simp
qed

theorem strand_symmetry_witness:
  "no_wrap_mirror default_options (transcript_mirror_sum plus_transcript) plus_transcript \<and>
   ascending_by_start plus_transcript \<and>
   plus_transcript \<noteq> [] \<and> strand (hd plus_transcript) = ''+'' \<and>
   mirror_transcript plus_transcript = minus_transcript \<and>
   endp (mirror_variant (transcript_mirror_sum plus_transcript) (variant_at 199)) = 301 \<and>
   label_score (get_variant_overlaps_spliceregion_ps default_options plus_transcript
     (variant_at 199)) = Inr (''splicing_exonic'', ''1'') \<and>
   label_score (get_variant_overlaps_spliceregion_ns default_options
     (mirror_transcript plus_transcript)
     (mirror_variant (transcript_mirror_sum plus_transcript) (variant_at 199)))
     = Inr (''splicing_exonic'', ''1'') \<and>
   label_score (get_variant_overlaps_spliceregion default_options plus_transcript
     (variant_at 199)) = Inr (''splicing_exonic'', ''1'') \<and>
   label_score (get_variant_overlaps_spliceregion default_options
     (mirror_transcript plus_transcript)
     (mirror_variant (transcript_mirror_sum plus_transcript) (variant_at 199)))
     = Inr (''splicing_exonic'', ''1'')"
proof -
  have wm: "no_wrap_mirror default_options (transcript_mirror_sum plus_transcript) plus_transcript"
    by (simp add: no_wrap_mirror_def transcript_mirror_sum_def plus_transcript_def exon_def
        default_options_def)
  have asc: "ascending_by_start plus_transcript"
    by (simp add: ascending_by_start_def plus_transcript_def exon_def)
  have ne: "plus_transcript \<noteq> []" and st: "strand (hd plus_transcript) = ''+''"
    by (simp_all add: plus_transcript_def exon_def)
  have m: "mirror_transcript plus_transcript = minus_transcript"
    by (simp add: mirror_transcript_def transcript_mirror_sum_def mirror_exon_def
        plus_transcript_def minus_transcript_def exon_def)
  have x: "endp (mirror_variant (transcript_mirror_sum plus_transcript) (variant_at 199)) = 301"
    by (simp add: mirror_variant_def transcript_mirror_sum_def plus_transcript_def exon_def
        variant_at_def new_AnnotatedVariant_def)
  have p: "label_score (get_variant_overlaps_spliceregion_ps default_options plus_transcript
     (variant_at 199)) = Inr (''splicing_exonic'', ''1'')"
    by code_simp
  have d: "label_score (get_variant_overlaps_spliceregion default_options plus_transcript
     (variant_at 199)) = Inr (''splicing_exonic'', ''1'')"
    by code_simp
  note sym = strand_symmetry [OF wm, of "variant_at 199"]
  have "label_score (get_variant_overlaps_spliceregion_ns default_options
     (mirror_transcript plus_transcript)
     (mirror_variant (transcript_mirror_sum plus_transcript) (variant_at 199)))
     = Inr (''splicing_exonic'', ''1'')"
    using sym p by metis
  moreover have "label_score (get_variant_overlaps_spliceregion default_options
     (mirror_transcript plus_transcript)
     (mirror_variant (transcript_mirror_sum plus_transcript) (variant_at 199)))
     = Inr (''splicing_exonic'', ''1'')"
    using sym ne st d by metis
  ultimately show ?thesis using wm asc ne st m x p d by (intro conjI)
qed

text \<open>
  The claim as stated fails in two ways. When the mirror image of \<open>plus_transcript\<close> is
  stored ascending by start, as the exons of every transcript are said to be stored, the
  \<open>-\<close> procedure, which reads its list from the highest exon to the lowest, answers
  \<open>non_splice_region\<close> where the \<open>+\<close> procedure answers \<open>splicing_exonic\<close>. And on
  \<open>low_plus_transcript\<close>, whose first exon starts at 1, the difference \<open>1 - 2\<close> of the
  early termination of the \<open>+\<close> procedure wraps around, so it answers
  \<open>non_splice_region\<close> at the coordinate 9, where the \<open>-\<close> procedure on the mirror
  image answers \<open>splicing_exonic\<close>.
\<close>

theorem strand_symmetry_counterexample:
  "ascending_by_start plus_transcript \<and>
   rev (mirror_transcript plus_transcript) = ascending_minus_transcript \<and>
   ascending_by_start ascending_minus_transcript \<and>
   label_score (get_variant_overlaps_spliceregion_ps default_options plus_transcript
     (variant_at 199)) = Inr (''splicing_exonic'', ''1'') \<and>
   label_score (get_variant_overlaps_spliceregion_ns default_options ascending_minus_transcript
     (mirror_variant (transcript_mirror_sum plus_transcript) (variant_at 199)))
     = Inr (''non_splice_region'', ''-1'') \<and>
   ascending_by_start low_plus_transcript \<and> well_formed low_plus_transcript \<and>
   mirror_transcript low_plus_transcript = [exon 21 30 ''-'', exon 1 11 ''-''] \<and>
   endp (mirror_variant (transcript_mirror_sum low_plus_transcript) (variant_at 9)) = 22 \<and>
   label_score (get_variant_overlaps_spliceregion_ps default_options low_plus_transcript
     (variant_at 9)) = Inr (''non_splice_region'', ''-1'') \<and>
   label_score (get_variant_overlaps_spliceregion_ns default_options
     (mirror_transcript low_plus_transcript)
     (mirror_variant (transcript_mirror_sum low_plus_transcript) (variant_at 9)))
     = Inr (''splicing_exonic'', ''1'')"
proof -
  have "ascending_by_start plus_transcript" "ascending_by_start ascending_minus_transcript"
    "ascending_by_start low_plus_transcript" "well_formed low_plus_transcript"
    by (simp_all add: ascending_by_start_def well_formed_def plus_transcript_def
        ascending_minus_transcript_def low_plus_transcript_def exon_def)
  moreover have "rev (mirror_transcript plus_transcript) = ascending_minus_transcript"
    "mirror_transcript low_plus_transcript = [exon 21 30 ''-'', exon 1 11 ''-'']"
    by (simp_all add: mirror_transcript_def transcript_mirror_sum_def mirror_exon_def
        plus_transcript_def ascending_minus_transcript_def low_plus_transcript_def exon_def)
  moreover have
    "endp (mirror_variant (transcript_mirror_sum low_plus_transcript) (variant_at 9)) = 22"
    by (simp add: mirror_variant_def transcript_mirror_sum_def low_plus_transcript_def exon_def
        variant_at_def new_AnnotatedVariant_def)
  moreover have "label_score (get_variant_overlaps_spliceregion_ps default_options
     plus_transcript (variant_at 199)) = Inr (''splicing_exonic'', ''1'')"
    by code_simp
  moreover have "label_score (get_variant_overlaps_spliceregion_ns default_options
     ascending_minus_transcript
     (mirror_variant (transcript_mirror_sum plus_transcript) (variant_at 199)))
     = Inr (''non_splice_region'', ''-1'')"
    by code_simp
  moreover have "label_score (get_variant_overlaps_spliceregion_ps default_options
     low_plus_transcript (variant_at 9)) = Inr (''non_splice_region'', ''-1'')"
    by code_simp
  moreover have "label_score (get_variant_overlaps_spliceregion_ns default_options
     (mirror_transcript low_plus_transcript)
     (mirror_variant (transcript_mirror_sum low_plus_transcript) (variant_at 9)))
     = Inr (''splicing_exonic'', ''1'')"
    by code_simp
  ultimately show ?thesis by (intro conjI)
qed

section \<open>The early termination\<close>

lemma sub_mono_left: "(d::32 word) \<le> a \<Longrightarrow> a \<le> b \<Longrightarrow> a - d \<le> b - d"
  by unat_arith

lemma add_mono_left: "(a::32 word) \<le> b \<Longrightarrow> b \<le> b + d \<Longrightarrow> a + d \<le> b + d"
  by unat_arith

lemma ps_fired_facts:
  assumes "endp v < start (exons ! i) - intronic_min_distance c"
    and "intronic_min_distance c \<le> start (exons ! i)"
    and "start (exons ! i) \<le> start (exons ! j)"
    and "start (exons ! j) \<le> endp (exons ! j)"
  shows "\<not> start (exons ! j) - intronic_min_distance c \<le> endp v"
    and "\<not> start (exons ! j) \<le> endp v" and "\<not> endp (exons ! j) < endp v"
proof -
  have "start (exons ! i) - intronic_min_distance c \<le> start (exons ! j) - intronic_min_distance c"
    using assms(2,3) by (rule sub_mono_left)
  with assms(1) show "\<not> start (exons ! j) - intronic_min_distance c \<le> endp v" by simp
  have "start (exons ! i) - intronic_min_distance c \<le> start (exons ! i)"
    using assms(2) by (rule word_sub_le)
  with assms(1,3) have s: "endp v < start (exons ! j)" by simp
  with assms(4) have e: "endp v < endp (exons ! j)" by simp
  from s show "\<not> start (exons ! j) \<le> endp v" by simp
  from e show "\<not> endp (exons ! j) < endp v" by simp
qed

lemma ps_fired_silent:
  assumes "endp v < start (exons ! i) - intronic_min_distance c"
    and "intronic_min_distance c \<le> start (exons ! i)"
    and "start (exons ! i) \<le> start (exons ! j)"
    and "start (exons ! j) \<le> endp (exons ! j)"
  shows "ps_iteration_no_shortcut c exons v j = None"
  by (simp add: ps_iteration_no_shortcut_def ps_boundary_cases_def ps_fired_facts [OF assms])

lemma ps_fired:
  assumes "endp v < start (exons ! i) - intronic_min_distance c"
    and "intronic_min_distance c \<le> start (exons ! i)"
    and "start (exons ! i) \<le> endp (exons ! i)"
  shows "ps_iteration c exons v i = Some (Inr v)"
  using assms(1)
  by (simp add: ps_iteration_def ps_fired_facts [OF assms(1,2) order_refl assms(3)])

lemma ns_fired_facts:
  assumes "endp (exons ! i) + intronic_min_distance c < endp v"
    and "endp (exons ! i) \<le> endp (exons ! i) + intronic_min_distance c"
    and "endp (exons ! j) \<le> endp (exons ! i)"
    and "start (exons ! j) \<le> endp (exons ! j)"
  shows "\<not> endp v \<le> endp (exons ! j) + intronic_min_distance c"
    and "\<not> endp v \<le> endp (exons ! j)" and "\<not> endp v < start (exons ! j)"
proof -
  have "endp (exons ! j) + intronic_min_distance c \<le> endp (exons ! i) + intronic_min_distance c"
    using assms(3,2) by (rule add_mono_left)
  with assms(1) show "\<not> endp v \<le> endp (exons ! j) + intronic_min_distance c" by simp
  from assms(1,2,3) have e: "endp (exons ! j) < endp v" by simp
  with assms(4) have s: "start (exons ! j) < endp v" by simp
  from e show "\<not> endp v \<le> endp (exons ! j)" by simp
  from s show "\<not> endp v < start (exons ! j)" by simp
qed

lemma ns_fired_silent:
  assumes "endp (exons ! i) + intronic_min_distance c < endp v"
    and "endp (exons ! i) \<le> endp (exons ! i) + intronic_min_distance c"
    and "endp (exons ! j) \<le> endp (exons ! i)"
    and "start (exons ! j) \<le> endp (exons ! j)"
  shows "ns_iteration_no_shortcut c exons v j = None"
  by (simp add: ns_iteration_no_shortcut_def ns_boundary_cases_def ns_fired_facts [OF assms])

lemma ns_fired:
  assumes "endp (exons ! i) + intronic_min_distance c < endp v"
    and "endp (exons ! i) \<le> endp (exons ! i) + intronic_min_distance c"
    and "start (exons ! i) \<le> endp (exons ! i)"
  shows "ns_iteration c exons v i = Some (Inr v)"
  using assms(1)
  by (simp add: ns_iteration_def ns_fired_facts [OF assms(1,2) order_refl assms(3)])

lemma ps_loop_no_shortcut_silent:
  assumes "\<And>j. i \<le> j \<Longrightarrow> j < length exons \<Longrightarrow> ps_iteration_no_shortcut c exons v j = None"
  shows "ps_loop_no_shortcut c exons v i = Inr v"
  using assms
proof (induction c exons v i rule: ps_loop_no_shortcut.induct)
  case (1 c exons v i)
  show ?case
  proof (cases "i < length exons")
    case False
    then show ?thesis by (simp add: ps_loop_no_shortcut.simps)
  next
    case True
    then have n: "ps_iteration_no_shortcut c exons v i = None" using "1.prems" by simp
    have "ps_loop_no_shortcut c exons v (i + 1) = Inr v"
      using True n "1.prems" by (intro "1.IH") simp_all
    with True n show ?thesis by (simp add: ps_loop_no_shortcut.simps [of c exons v i])
  qed
qed

lemma ns_loop_no_shortcut_silent:
  assumes "\<And>j. i \<le> j \<Longrightarrow> j < length exons \<Longrightarrow> ns_iteration_no_shortcut c exons v j = None"
  shows "ns_loop_no_shortcut c exons v i = Inr v"
  using assms
proof (induction c exons v i rule: ns_loop_no_shortcut.induct)
  case (1 c exons v i)
  show ?case
  proof (cases "i < length exons")
    case False
    then show ?thesis by (simp add: ns_loop_no_shortcut.simps)
  next
    case True
    then have n: "ns_iteration_no_shortcut c exons v i = None" using "1.prems" by simp
    have "ns_loop_no_shortcut c exons v (i + 1) = Inr v"
      using True n "1.prems" by (intro "1.IH") simp_all
    with True n show ?thesis by (simp add: ns_loop_no_shortcut.simps [of c exons v i])
  qed
qed

lemma ps_loop_shortcut:
  assumes "well_formed exons" "ascending_by_start exons" "no_wrap_ps c exons"
  shows "ps_loop c exons v i = ps_loop_no_shortcut c exons v i"
  using assms
proof (induction c exons v i rule: ps_loop.induct)
  case (1 c exons v i)
  have wf: "start (exons ! j) \<le> endp (exons ! j)" if "j < length exons" for j
    using that "1.prems"(1) by (simp add: well_formed_def list_all_length)
  have asc: "start (exons ! i) \<le> start (exons ! j)" if "i \<le> j" "j < length exons" for j
    using that "1.prems"(2)
    by (cases "i = j") (auto simp: ascending_by_start_def sorted_wrt_iff_nth_less)
  have nw: "intronic_min_distance c \<le> start (exons ! j)" if "j < length exons" for j
    using that "1.prems"(3) by (simp add: no_wrap_ps_def list_all_length)
  show ?case
  proof (cases "i < length exons")
    case False
    then show ?thesis by (simp add: ps_loop.simps ps_loop_no_shortcut.simps)
  next
    case True
    show ?thesis
    proof (cases "endp v < start (exons ! i) - intronic_min_distance c")
      case fired: True
      have "ps_iteration_no_shortcut c exons v j = None" if "i \<le> j" "j < length exons" for j
        using fired nw [OF True] asc [OF that] wf [OF that(2)]
        by (rule ps_fired_silent)
      then have a: "ps_loop_no_shortcut c exons v i = Inr v"
        by (rule ps_loop_no_shortcut_silent)
      have "ps_iteration c exons v i = Some (Inr v)"
        using fired nw [OF True] wf [OF True] by (rule ps_fired)
      with True a show ?thesis by (simp add: ps_loop.simps [of c exons v i])
    next
      case False
      then have e: "ps_iteration c exons v i = ps_iteration_no_shortcut c exons v i"
        by (simp add: ps_iteration_def ps_iteration_no_shortcut_def)
      show ?thesis
      proof (cases "ps_iteration c exons v i")
        case None
        with True e 1 show ?thesis
          by (simp add: ps_loop.simps [of c exons v i] ps_loop_no_shortcut.simps [of c exons v i])
      next
        case (Some r)
        then have "ps_iteration_no_shortcut c exons v i = Some r" using e by simp
        with Some True show ?thesis
          by (simp add: ps_loop.simps [of c exons v i] ps_loop_no_shortcut.simps [of c exons v i])
      qed
    qed
  qed
qed

lemma ns_loop_shortcut:
  assumes "well_formed exons" "descending_by_end exons" "no_wrap_ns c exons"
  shows "ns_loop c exons v i = ns_loop_no_shortcut c exons v i"
  using assms
proof (induction c exons v i rule: ns_loop.induct)
  case (1 c exons v i)
  have wf: "start (exons ! j) \<le> endp (exons ! j)" if "j < length exons" for j
    using that "1.prems"(1) by (simp add: well_formed_def list_all_length)
  have desc: "endp (exons ! j) \<le> endp (exons ! i)" if "i \<le> j" "j < length exons" for j
    using that "1.prems"(2)
    by (cases "i = j") (auto simp: descending_by_end_def sorted_wrt_iff_nth_less)
  have nw: "endp (exons ! j) \<le> endp (exons ! j) + intronic_min_distance c"
    if "j < length exons" for j
    using that "1.prems"(3) by (simp add: no_wrap_ns_def list_all_length)
  show ?case
  proof (cases "i < length exons")
    case False
    then show ?thesis by (simp add: ns_loop.simps ns_loop_no_shortcut.simps)
  next
    case True
    show ?thesis
    proof (cases "endp (exons ! i) + intronic_min_distance c < endp v")
      case fired: True
      have "ns_iteration_no_shortcut c exons v j = None" if "i \<le> j" "j < length exons" for j
        using fired nw [OF True] desc [OF that] wf [OF that(2)]
        by (rule ns_fired_silent)
      then have a: "ns_loop_no_shortcut c exons v i = Inr v"
        by (rule ns_loop_no_shortcut_silent)
      have "ns_iteration c exons v i = Some (Inr v)"
        using fired nw [OF True] wf [OF True] by (rule ns_fired)
      with True a show ?thesis by (simp add: ns_loop.simps [of c exons v i])
    next
      case False
      then have e: "ns_iteration c exons v i = ns_iteration_no_shortcut c exons v i"
        by (simp add: ns_iteration_def ns_iteration_no_shortcut_def)
      show ?thesis
      proof (cases "ns_iteration c exons v i")
        case None
        with True e 1 show ?thesis
          by (simp add: ns_loop.simps [of c exons v i] ns_loop_no_shortcut.simps [of c exons v i])
      next
        case (Some r)
        then have "ns_iteration_no_shortcut c exons v i = Some r" using e by simp
        with Some True show ?thesis
          by (simp add: ns_loop.simps [of c exons v i] ns_loop_no_shortcut.simps [of c exons v i])
      qed
    qed
  qed
qed

text \<open>
  C4 (as amended). For exons that are intervals (start not above end) the classifier
  returns the same variant, hence the same label and score, with and without the early
  termination: for the \<open>+\<close> procedure on every list sorted ascending by start in which
  no exon starts below \<open>intronic_min_distance\<close>; for the \<open>-\<close> procedure on every list
  sorted descending by end (the order of a mirrored ascending list, in which \<open>exons[0]\<close>
  is the highest exon) in which no end plus \<open>intronic_min_distance\<close> reaches \<open>2 ^ 32\<close>.
\<close>

theorem early_termination_is_optimisation:
  assumes "well_formed exons"
  shows "(ascending_by_start exons \<and> no_wrap_ps c exons \<longrightarrow>
            get_variant_overlaps_spliceregion_ps c exons v = ps_no_shortcut c exons v) \<and>
         (descending_by_end exons \<and> no_wrap_ns c exons \<longrightarrow>
            get_variant_overlaps_spliceregion_ns c exons v = ns_no_shortcut c exons v)"
  using ps_loop_shortcut [OF assms] ns_loop_shortcut [OF assms]
  by (simp add: get_variant_overlaps_spliceregion_ps_def ps_no_shortcut_def
      get_variant_overlaps_spliceregion_ns_def ns_no_shortcut_def Let_def)

theorem early_termination_is_optimisation_witness:
  "well_formed plus_transcript \<and> ascending_by_start plus_transcript \<and>
   no_wrap_ps default_options plus_transcript \<and>
   get_variant_overlaps_spliceregion_ps default_options plus_transcript (variant_at 250)
     = ps_no_shortcut default_options plus_transcript (variant_at 250) \<and>
   well_formed minus_transcript \<and> descending_by_end minus_transcript \<and>
   no_wrap_ns default_options minus_transcript \<and>
   get_variant_overlaps_spliceregion_ns default_options minus_transcript (variant_at 250)
     = ns_no_shortcut default_options minus_transcript (variant_at 250)"
proof -
  have p: "well_formed plus_transcript" "ascending_by_start plus_transcript"
    "no_wrap_ps default_options plus_transcript"
    by (simp_all add: well_formed_def ascending_by_start_def no_wrap_ps_def
        plus_transcript_def exon_def default_options_def)
  have m: "well_formed minus_transcript" "descending_by_end minus_transcript"
    "no_wrap_ns default_options minus_transcript"
    by (simp_all add: well_formed_def descending_by_end_def no_wrap_ns_def
        minus_transcript_def exon_def default_options_def)
  show ?thesis
    using early_termination_is_optimisation [OF p(1), of default_options "variant_at 250"]
      early_termination_is_optimisation [OF m(1), of default_options "variant_at 250"] p m
    by simp
qed

text \<open>
  The claim as stated fails in two ways. For the \<open>-\<close> procedure on a list that is sorted
  ascending by start: on \<open>nested_minus_transcript\<close> at the coordinate 350 the early
  termination fires at the second exon, and without it the third exon classifies the
  variant. And for the \<open>+\<close> procedure on \<open>low_plus_transcript\<close>, whose first exon
  starts at 1: the difference \<open>1 - 2\<close> wraps around, the early termination fires at the
  first exon for the coordinate 9, and without it that exon classifies the variant.
\<close>

theorem early_termination_counterexample:
  "ascending_by_start nested_minus_transcript \<and> well_formed nested_minus_transcript \<and>
   label_score (get_variant_overlaps_spliceregion_ns default_options nested_minus_transcript
      (variant_at 350)) = Inr (''non_splice_region'', ''-1'') \<and>
   label_score (ns_no_shortcut default_options nested_minus_transcript (variant_at 350))
     = Inr (''splicing_exonic'', ''2'') \<and>
   ascending_by_start low_plus_transcript \<and> well_formed low_plus_transcript \<and>
   label_score (get_variant_overlaps_spliceregion_ps default_options low_plus_transcript
      (variant_at 9)) = Inr (''non_splice_region'', ''-1'') \<and>
   label_score (ps_no_shortcut default_options low_plus_transcript (variant_at 9))
     = Inr (''splicing_exonic'', ''1'')"
proof -
  have "ascending_by_start nested_minus_transcript" "well_formed nested_minus_transcript"
    "ascending_by_start low_plus_transcript" "well_formed low_plus_transcript"
    by (simp_all add: ascending_by_start_def well_formed_def nested_minus_transcript_def
        low_plus_transcript_def exon_def)
  moreover have "label_score (get_variant_overlaps_spliceregion_ns default_options
      nested_minus_transcript (variant_at 350)) = Inr (''non_splice_region'', ''-1'')"
    by code_simp
  moreover have "label_score (ns_no_shortcut default_options nested_minus_transcript
      (variant_at 350)) = Inr (''splicing_exonic'', ''2'')"
    by code_simp
  moreover have "label_score (get_variant_overlaps_spliceregion_ps default_options
      low_plus_transcript (variant_at 9)) = Inr (''non_splice_region'', ''-1'')"
    by code_simp
  moreover have "label_score (ps_no_shortcut default_options low_plus_transcript
      (variant_at 9)) = Inr (''splicing_exonic'', ''1'')"
    by code_simp
  ultimately show ?thesis by (intro conjI)
qed

section \<open>The three loops of the aggregator as one\<close>

lemma transcripts_loop_append:
  "transcripts_loop c gtf st (xs @ ys) =
     (case transcripts_loop c gtf st xs of
        Inl e \<Rightarrow> Inl e
      | Inr st' \<Rightarrow> transcripts_loop c gtf st' ys)"
  by (induction xs arbitrary: st) (auto split: sum.splits)

lemma bins_loop_transcripts:
  "bins_loop c gtf chr b end_b st =
     transcripts_loop c gtf st (concat (map (transcripts_from_bin gtf chr) [b..end_b]))"
proof (induction c gtf chr b end_b st rule: bins_loop.induct)
  case (1 c gtf chr b end_b st)
  show ?case
  proof (cases "b \<le> end_b")
    case False
    then show ?thesis by (simp add: bins_loop.simps)
  next
    case True
    then have u: "[b..end_b] = b # [b + 1..end_b]" by (simp add: upto_rec1)
    show ?thesis
      using True 1
      by (simp add: bins_loop.simps [of c gtf chr b end_b st] u transcripts_loop_append
          split: sum.splits)
  qed
qed

lemma levels_loop_transcripts:
  "levels_loop c gtf bs chr i start_bin end_bin st =
     transcripts_loop c gtf st (level_transcripts gtf bs chr i start_bin end_bin)"
proof (induction c gtf bs chr i start_bin end_bin st rule: levels_loop.induct)
  case (1 c gtf bs chr i start_bin end_bin st)
  show ?case
  proof (cases "i < binLevels bs")
    case False
    then show ?thesis
      by (simp add: levels_loop.simps level_transcripts.simps)
  next
    case True
    show ?thesis
      using True 1
      by (simp add: levels_loop.simps [of c gtf bs chr i start_bin end_bin st]
          level_transcripts.simps [of gtf bs chr i start_bin end_bin]
          bins_loop_transcripts transcripts_loop_append Let_def split: sum.splits)
  qed
qed

lemma annotate_record_transcripts:
  "annotate_record_with_transcripts c gtf bs chr pos =
     (case transcripts_loop c gtf (initial_locals chr pos)
             (candidate_transcripts c gtf bs chr pos) of
        Inl e \<Rightarrow> Inl e
      | Inr st \<Rightarrow> Inr (returned_variant st))"
  by (simp add: annotate_record_with_transcripts_def levels_loop_transcripts
      candidate_transcripts_def initial_locals_def returned_variant_def Let_def
      split: sum.splits)

section \<open>Fatal errors\<close>

lemma dispatch_result:
  assumes "exons \<noteq> []"
  shows "if strand (hd exons) \<noteq> ''+'' \<and> strand (hd exons) \<noteq> ''-''
         then get_variant_overlaps_spliceregion c exons v = Inl (UnknownStrand (strand (hd exons)))
         else \<exists>w. get_variant_overlaps_spliceregion c exons v = Inr w"
  using assms ps_Inr [OF assms, of c v] ns_Inr [OF assms, of c v]
  by (auto simp: get_variant_overlaps_spliceregion_def UnknownStrand_def hd_conv_nth)

lemma annotate_transcript_error:
  "(annotate_transcript c gtf st t = Inl e) = (raised_error c gtf t = Some e)"
proof (cases "get_exons_from_transcript gtf t = []")
  case True
  then show ?thesis
    by (auto simp: annotate_transcript_def raised_error_def MissingExons_def)
next
  case False
  note d = dispatch_result [OF False, of c "variant st"]
  show ?thesis
  proof (cases "skip_single_exon_genes c \<and> length (get_exons_from_transcript gtf t) = 1")
    case True
    with False show ?thesis by (simp add: annotate_transcript_def raised_error_def)
  next
    case ns: False
    show ?thesis
    proof (cases "strand (hd (get_exons_from_transcript gtf t)) \<noteq> ''+'' \<and>
                  strand (hd (get_exons_from_transcript gtf t)) \<noteq> ''-''")
      case True
      with d False ns show ?thesis
        by (auto simp: annotate_transcript_def raised_error_def Let_def)
    next
      case ok: False
      with d obtain w where "get_variant_overlaps_spliceregion c (get_exons_from_transcript gtf t) (variant st) = Inr w"
        by auto
      with False ns ok show ?thesis
        by (auto simp: annotate_transcript_def raised_error_def Let_def)
    qed
  qed
qed

lemma annotate_transcript_no_error:
  "raised_error c gtf t = None \<Longrightarrow> \<exists>st'. annotate_transcript c gtf st t = Inr st'"
  using annotate_transcript_error [of c gtf st t]
  by (cases "annotate_transcript c gtf st t") auto

lemma transcripts_loop_first_error:
  "case first_error c gtf ts of
     Some e \<Rightarrow> transcripts_loop c gtf st ts = Inl e
   | None \<Rightarrow> (\<exists>st'. transcripts_loop c gtf st ts = Inr st')"
proof (induction ts arbitrary: st)
  case Nil
  show ?case by simp
next
  case (Cons t ts)
  show ?case
  proof (cases "raised_error c gtf t")
    case (Some e)
    then have "annotate_transcript c gtf st t = Inl e" by (simp add: annotate_transcript_error)
    with Some show ?thesis by simp
  next
    case None
    then obtain st' where "annotate_transcript c gtf st t = Inr st'"
      using annotate_transcript_no_error by blast
    with None Cons [of st'] show ?thesis by (simp split: option.splits)
  qed
qed

lemma error_messages_differ: "UnknownStrand s \<noteq> MissingExons t"
  by (simp add: UnknownStrand_def MissingExons_def)

text \<open>
  C7. On a non-empty exon list the dispatch of the classifier ends in the error
  \<open>UnknownStrand\<close> if the strand of the transcript is neither \<open>+\<close> nor \<open>-\<close>, and returns
  a variant otherwise. The loop body of the aggregator ends in the error \<open>MissingExons\<close> for
  a candidate transcript exactly when the feature store gives an empty exon list for it.
  Neither error is dropped: the whole of \<open>annotate_record_with_transcripts\<close> ends in the
  error of the first candidate transcript that has one, and returns a variant only when no
  candidate has one.
\<close>

theorem fatal_errors:
  "(exons \<noteq> [] \<longrightarrow>
      (if strand (hd exons) \<noteq> ''+'' \<and> strand (hd exons) \<noteq> ''-''
       then get_variant_overlaps_spliceregion c exons v = Inl (UnknownStrand (strand (hd exons)))
       else \<exists>w. get_variant_overlaps_spliceregion c exons v = Inr w)) \<and>
   ((annotate_transcript c gtf st t = Inl (MissingExons t))
      = (get_exons_from_transcript gtf t = [])) \<and>
   (case first_error c gtf (candidate_transcripts c gtf bs chr pos) of
      Some e \<Rightarrow> annotate_record_with_transcripts c gtf bs chr pos = Inl e
    | None \<Rightarrow> (\<exists>w. annotate_record_with_transcripts c gtf bs chr pos = Inr w))"
proof -
  have a: "exons \<noteq> [] \<longrightarrow>
      (if strand (hd exons) \<noteq> ''+'' \<and> strand (hd exons) \<noteq> ''-''
       then get_variant_overlaps_spliceregion c exons v = Inl (UnknownStrand (strand (hd exons)))
       else \<exists>w. get_variant_overlaps_spliceregion c exons v = Inr w)"
    using dispatch_result [of exons c v] by blast
  have b: "(annotate_transcript c gtf st t = Inl (MissingExons t))
      = (get_exons_from_transcript gtf t = [])"
    using error_messages_differ [of _ t]
    by (auto simp: annotate_transcript_error raised_error_def Let_def)
  have c: "case first_error c gtf (candidate_transcripts c gtf bs chr pos) of
      Some e \<Rightarrow> annotate_record_with_transcripts c gtf bs chr pos = Inl e
    | None \<Rightarrow> (\<exists>w. annotate_record_with_transcripts c gtf bs chr pos = Inr w)"
    using transcripts_loop_first_error [where c = c and gtf = gtf
        and ts = "candidate_transcripts c gtf bs chr pos" and st = "initial_locals chr pos"]
    by (auto simp: annotate_record_transcripts split: option.splits)
  show ?thesis using a b c by blast
qed

theorem fatal_errors_witness:
  "unknown_strand_transcript \<noteq> [] \<and>
   get_variant_overlaps_spliceregion default_options unknown_strand_transcript (variant_at 199)
     = Inl (UnknownStrand ''.'') \<and>
   get_exons_from_transcript (test_gtf [''T1'', ''E0'', ''T2'']) ''E0'' = [] \<and>
   annotate_transcript default_options (test_gtf [''T1'', ''E0'', ''T2''])
     (initial_locals ''1'' 198) ''E0'' = Inl (MissingExons ''E0'') \<and>
   first_error default_options (test_gtf [''T1'', ''E0'', ''T2''])
     (candidate_transcripts default_options (test_gtf [''T1'', ''E0'', ''T2'']) test_bins ''1'' 198)
     = Some (MissingExons ''E0'') \<and>
   annotate_record_with_transcripts default_options (test_gtf [''T1'', ''E0'', ''T2''])
     test_bins ''1'' 198 = Inl (MissingExons ''E0'') \<and>
   first_error default_options (test_gtf [''T1'', ''T2''])
     (candidate_transcripts default_options (test_gtf [''T1'', ''T2'']) test_bins ''1'' 198)
     = None \<and>
   (\<exists>w. annotate_record_with_transcripts default_options (test_gtf [''T1'', ''T2''])
     test_bins ''1'' 198 = Inr w)"
proof -
  have ne: "unknown_strand_transcript \<noteq> []"
    and s: "strand (hd unknown_strand_transcript) = ''.''"
    by (simp_all add: unknown_strand_transcript_def exon_def)
  have e0: "get_exons_from_transcript (test_gtf [''T1'', ''E0'', ''T2'']) ''E0'' = []"
    by (simp add: test_gtf_def test_exons_def)
  have f1: "first_error default_options (test_gtf [''T1'', ''E0'', ''T2''])
     (candidate_transcripts default_options (test_gtf [''T1'', ''E0'', ''T2'']) test_bins ''1'' 198)
     = Some (MissingExons ''E0'')"
    by code_simp
  have f2: "first_error default_options (test_gtf [''T1'', ''T2''])
     (candidate_transcripts default_options (test_gtf [''T1'', ''T2'']) test_bins ''1'' 198)
     = None"
    by code_simp
  show ?thesis
    using fatal_errors [of unknown_strand_transcript default_options "variant_at 199"
        "test_gtf [''T1'', ''E0'', ''T2'']" "initial_locals ''1'' 198" "''E0''" test_bins "''1''" 198]
      fatal_errors [of unknown_strand_transcript default_options "variant_at 199"
        "test_gtf [''T1'', ''T2'']" "initial_locals ''1'' 198" "''E0''" test_bins "''1''" 198]
      ne s e0 f1 f2
    by simp
qed

section \<open>Single-exon transcripts\<close>

lemma annotate_transcript_skip:
  assumes "skip_single_exon_genes c" "length (get_exons_from_transcript gtf t) = 1"
  shows "annotate_transcript c gtf st t = Inr st"
  using assms by (auto simp: annotate_transcript_def Let_def)

lemma transcripts_loop_skip:
  assumes "skip_single_exon_genes c"
  shows "transcripts_loop c gtf st
           (filter (\<lambda>t. length (get_exons_from_transcript gtf t) \<noteq> 1) ts)
       = transcripts_loop c gtf st ts"
  using assms
  by (induction ts arbitrary: st) (auto simp: annotate_transcript_skip split: sum.splits)

lemma annotate_transcript_bins:
  "annotate_transcript c (gtf\<lparr>transcripts_from_bin := f\<rparr>) st t = annotate_transcript c gtf st t"
  by (simp add: annotate_transcript_def Let_def cong: sum.case_cong if_cong)

lemma transcripts_loop_bins:
  "transcripts_loop c (gtf\<lparr>transcripts_from_bin := f\<rparr>) st ts = transcripts_loop c gtf st ts"
  by (induction ts arbitrary: st) (simp_all add: annotate_transcript_bins cong: sum.case_cong)

lemma level_transcripts_filter:
  "level_transcripts (gtf\<lparr>transcripts_from_bin := (\<lambda>chr b. filter P (transcripts_from_bin gtf chr b))\<rparr>)
     bs chr i start_bin end_bin
   = filter P (level_transcripts gtf bs chr i start_bin end_bin)"
proof (induction gtf bs chr i start_bin end_bin rule: level_transcripts.induct)
  case (1 gtf bs chr i start_bin end_bin)
  show ?case
  proof (cases "i < binLevels bs")
    case False
    then show ?thesis by (simp add: level_transcripts.simps)
  next
    case True
    show ?thesis
      using True 1
      by (simp add: level_transcripts.simps [of _ bs chr i start_bin end_bin]
          filter_concat comp_def)
  qed
qed

text \<open>
  C9. With \<open>skip_single_exon_genes\<close> on, the loop body leaves all locals (the variant and
  the four lists) as they are for a candidate transcript with exactly one exon, whatever the
  position of the variant; and \<open>annotate_record_with_transcripts\<close> returns the same on a
  feature store and on that store with every single-exon transcript taken out of its bins.
\<close>

theorem single_exon_transcripts_skipped:
  assumes "skip_single_exon_genes c"
  shows "(length (get_exons_from_transcript gtf t) = 1 \<longrightarrow>
            annotate_transcript c gtf st t = Inr st) \<and>
         annotate_record_with_transcripts c (without_single_exon_transcripts gtf) bs chr pos
           = annotate_record_with_transcripts c gtf bs chr pos"
proof -
  have cand: "candidate_transcripts c (without_single_exon_transcripts gtf) bs chr pos
      = filter (\<lambda>t. length (get_exons_from_transcript gtf t) \<noteq> 1)
          (candidate_transcripts c gtf bs chr pos)"
    by (simp add: candidate_transcripts_def without_single_exon_transcripts_def
        level_transcripts_filter)
  have same: "transcripts_loop c (without_single_exon_transcripts gtf) st' ts
      = transcripts_loop c gtf st' ts" for st' ts
    unfolding without_single_exon_transcripts_def by (rule transcripts_loop_bins)
  have "annotate_record_with_transcripts c (without_single_exon_transcripts gtf) bs chr pos
           = annotate_record_with_transcripts c gtf bs chr pos"
    unfolding annotate_record_transcripts cand same transcripts_loop_skip [OF assms] ..
  with assms show ?thesis by (simp add: annotate_transcript_skip)
qed

theorem single_exon_transcripts_skipped_witness:
  "skip_single_exon_genes exonic_options \<and>
   get_exons_from_transcript (test_gtf [''S1'']) ''S1'' = [exon 100 200 ''+''] \<and>
   annotate_transcript exonic_options (test_gtf [''S1'']) (initial_locals ''1'' 149) ''S1''
     = Inr (initial_locals ''1'' 149) \<and>
   annotate_record_with_transcripts exonic_options (test_gtf [''S1'']) test_bins ''1'' 149
     = Inr (new_AnnotatedVariant ''1'' 149 150) \<and>
   annotate_record_with_transcripts exonic_options
     (without_single_exon_transcripts (test_gtf [''S1''])) test_bins ''1'' 149
     = Inr (new_AnnotatedVariant ''1'' 149 150) \<and>
   label_score (annotate_record_with_transcripts
     (exonic_options\<lparr>skip_single_exon_genes := False\<rparr>) (test_gtf [''S1'']) test_bins ''1'' 149)
     = Inr (''exonic'', ''50'')"
proof -
  have sk: "skip_single_exon_genes exonic_options"
    by (simp add: exonic_options_def default_options_def)
  have ex: "get_exons_from_transcript (test_gtf [''S1'']) ''S1'' = [exon 100 200 ''+'']"
    by (simp add: test_gtf_def test_exons_def)
  have r: "annotate_record_with_transcripts exonic_options
     (without_single_exon_transcripts (test_gtf [''S1''])) test_bins ''1'' 149
     = Inr (new_AnnotatedVariant ''1'' 149 150)"
    by code_simp
  have n: "label_score (annotate_record_with_transcripts
     (exonic_options\<lparr>skip_single_exon_genes := False\<rparr>) (test_gtf [''S1'']) test_bins ''1'' 149)
     = Inr (''exonic'', ''50'')"
    by code_simp
  show ?thesis
    using single_exon_transcripts_skipped [OF sk, of "test_gtf [''S1'']" "''S1''"
        "initial_locals ''1'' 149" test_bins "''1''" 149] sk ex r n
    by simp
qed

section \<open>The cis-effect window across the transcripts of one variant\<close>

subsection \<open>What a loop over the exons returns\<close>

lemma ps_loop_result:
  assumes "\<And>j r. j < length exons \<Longrightarrow> ps_iteration c exons v j = Some r \<Longrightarrow> P r"
    and "P (Inr v)"
  shows "P (ps_loop c exons v i)"
  using assms
proof (induction c exons v i rule: ps_loop.induct)
  case (1 c exons v i)
  show ?case
  proof (cases "i < length exons")
    case False
    with "1.prems"(2) show ?thesis by (simp add: ps_loop.simps)
  next
    case True
    show ?thesis
    proof (cases "ps_iteration c exons v i")
      case None
      with True "1.IH" "1.prems" show ?thesis by (simp add: ps_loop.simps [of c exons v i])
    next
      case (Some r)
      with True "1.prems"(1) show ?thesis by (simp add: ps_loop.simps [of c exons v i])
    qed
  qed
qed

lemma ns_loop_result:
  assumes "\<And>j r. j < length exons \<Longrightarrow> ns_iteration c exons v j = Some r \<Longrightarrow> P r"
    and "P (Inr v)"
  shows "P (ns_loop c exons v i)"
  using assms
proof (induction c exons v i rule: ns_loop.induct)
  case (1 c exons v i)
  show ?case
  proof (cases "i < length exons")
    case False
    with "1.prems"(2) show ?thesis by (simp add: ns_loop.simps)
  next
    case True
    show ?thesis
    proof (cases "ns_iteration c exons v i")
      case None
      with True "1.IH" "1.prems" show ?thesis by (simp add: ns_loop.simps [of c exons v i])
    next
      case (Some r)
      with True "1.prems"(1) show ?thesis by (simp add: ns_loop.simps [of c exons v i])
    qed
  qed
qed

lemma ps_loop_related:
  assumes "\<And>j. j < length exons \<Longrightarrow>
             rel_option Q (ps_iteration c exons v j) (ps_iteration c exons v' j)"
    and "Q (Inr v) (Inr v')"
  shows "Q (ps_loop c exons v i) (ps_loop c exons v' i)"
  using assms
proof (induction c exons v i rule: ps_loop.induct)
  case (1 c exons v i)
  show ?case
  proof (cases "i < length exons")
    case False
    with "1.prems"(2) show ?thesis by (simp add: ps_loop.simps)
  next
    case True
    note rel = "1.prems"(1) [OF True]
    show ?thesis
    proof (cases "ps_iteration c exons v i")
      case None
      with rel have "ps_iteration c exons v' i = None" by simp
      with None True "1.IH" "1.prems" show ?thesis
        by (simp add: ps_loop.simps [of c exons v i] ps_loop.simps [of c exons v' i])
    next
      case (Some r)
      with rel obtain r' where "ps_iteration c exons v' i = Some r'" "Q r r'"
        by (cases "ps_iteration c exons v' i") auto
      with Some True show ?thesis
        by (simp add: ps_loop.simps [of c exons v i] ps_loop.simps [of c exons v' i])
    qed
  qed
qed

lemma ns_loop_related:
  assumes "\<And>j. j < length exons \<Longrightarrow>
             rel_option Q (ns_iteration c exons v j) (ns_iteration c exons v' j)"
    and "Q (Inr v) (Inr v')"
  shows "Q (ns_loop c exons v i) (ns_loop c exons v' i)"
  using assms
proof (induction c exons v i rule: ns_loop.induct)
  case (1 c exons v i)
  show ?case
  proof (cases "i < length exons")
    case False
    with "1.prems"(2) show ?thesis by (simp add: ns_loop.simps)
  next
    case True
    note rel = "1.prems"(1) [OF True]
    show ?thesis
    proof (cases "ns_iteration c exons v i")
      case None
      with rel have "ns_iteration c exons v' i = None" by simp
      with None True "1.IH" "1.prems" show ?thesis
        by (simp add: ns_loop.simps [of c exons v i] ns_loop.simps [of c exons v' i])
    next
      case (Some r)
      with rel obtain r' where "ns_iteration c exons v' i = Some r'" "Q r r'"
        by (cases "ns_iteration c exons v' i") auto
      with Some True show ?thesis
        by (simp add: ns_loop.simps [of c exons v i] ns_loop.simps [of c exons v' i])
    qed
  qed
qed

subsection \<open>The classifier keeps the coordinate and widens the window\<close>

lemma cis_same_place_wider:
  assumes "i < length exons" "set_variant_cis_effect_limits exons v i = Inr w"
  shows "same_place_wider v w \<and> score w = score v \<and> annotation w = annotation v"
  using cis_frame [OF assms(1), of v] assms(2)
  by (auto simp: same_place_wider_def window_widened_def)

lemma ps_boundary_frame:
  assumes "i < length exons" "ps_boundary_cases c exons v i = Some (Inr w)"
  shows "same_place_wider v w"
  using assms
  by (auto simp: ps_boundary_cases_def same_place_wider_def window_widened_def
      split: if_splits dest!: cis_same_place_wider [rotated])

lemma ns_boundary_frame:
  assumes "i < length exons" "ns_boundary_cases c exons v i = Some (Inr w)"
  shows "same_place_wider v w"
  using assms
  by (auto simp: ns_boundary_cases_def same_place_wider_def window_widened_def
      split: if_splits dest!: cis_same_place_wider [rotated])

lemma ps_iteration_frame:
  assumes "i < length exons" "ps_iteration c exons v i = Some (Inr w)"
  shows "same_place_wider v w"
  using assms ps_boundary_frame [of i exons c v w]
  by (auto simp: ps_iteration_def same_place_wider_def window_widened_def split: if_splits)

lemma ns_iteration_frame:
  assumes "i < length exons" "ns_iteration c exons v i = Some (Inr w)"
  shows "same_place_wider v w"
  using assms ns_boundary_frame [of i exons c v w]
  by (auto simp: ns_iteration_def same_place_wider_def window_widened_def split: if_splits)

lemma same_place_wider_refl [simp]: "same_place_wider v v"
  by (simp add: same_place_wider_def window_widened_def)

lemma ps_loop_frame: "ps_loop c exons v i = Inr w \<Longrightarrow> same_place_wider v w"
  by (rule ps_loop_result [where P = "\<lambda>r. \<forall>w. r = Inr w \<longrightarrow> same_place_wider v w", rule_format])
    (auto dest: ps_iteration_frame)

lemma ns_loop_frame: "ns_loop c exons v i = Inr w \<Longrightarrow> same_place_wider v w"
  by (rule ns_loop_result [where P = "\<lambda>r. \<forall>w. r = Inr w \<longrightarrow> same_place_wider v w", rule_format])
    (auto dest: ns_iteration_frame)

lemma classifier_frame:
  assumes "get_variant_overlaps_spliceregion c exons v = Inr w"
  shows "same_place_wider v w"
proof -
  have "same_place_wider (v\<lparr>score := ''-1'', annotation := ''non_splice_region''\<rparr>) w
      \<Longrightarrow> same_place_wider v w"
    by (simp add: same_place_wider_def window_widened_def)
  then show ?thesis
    using assms ps_loop_frame [of c exons "v\<lparr>score := ''-1'', annotation := ''non_splice_region''\<rparr>" 0 w]
      ns_loop_frame [of c exons "v\<lparr>score := ''-1'', annotation := ''non_splice_region''\<rparr>" 0 w]
    by (auto simp: get_variant_overlaps_spliceregion_def get_variant_overlaps_spliceregion_ps_def
        get_variant_overlaps_spliceregion_ns_def Let_def split: if_splits)
qed

subsection \<open>A wider window going in gives a wider window coming out\<close>

lemma same_class_wider_update:
  "same_class_wider v v' \<Longrightarrow>
     same_class_wider (v\<lparr>score := s, annotation := a\<rparr>) (v'\<lparr>score := s, annotation := a\<rparr>)"
  by (simp add: same_class_wider_def window_widened_def)

lemma rel_option_if:
  "(b \<Longrightarrow> rel_option Q x x') \<Longrightarrow> (\<not> b \<Longrightarrow> rel_option Q y y') \<Longrightarrow>
     rel_option Q (if b then x else y) (if b then x' else y')"
  by simp

lemma cis_related:
  assumes "i < length exons" "same_class_wider v v'"
  shows "rel_sum (=) same_class_wider
           (set_variant_cis_effect_limits exons v i) (set_variant_cis_effect_limits exons v' i)"
proof -
  have ne: "exons \<noteq> []" using assms(1) by auto
  consider (p) "strand (exons ! 0) = ''+''" | (n) "strand (exons ! 0) = ''-''"
    | (o) "strand (exons ! 0) \<noteq> ''+''" "strand (exons ! 0) \<noteq> ''-''" by blast
  then show ?thesis
  proof cases
    case p
    with ne assms(2) show ?thesis
      by (auto simp: set_variant_cis_effect_limits_def cis_ps_result [OF assms(1)]
          same_class_wider_def window_widened_def min_le_iff_disj le_max_iff_disj)
  next
    case n
    with ne assms(2) show ?thesis
      by (auto simp: set_variant_cis_effect_limits_def cis_ns_result [OF assms(1)]
          same_class_wider_def window_widened_def min_le_iff_disj le_max_iff_disj)
  next
    case o
    with ne assms(2) show ?thesis
      by (simp add: set_variant_cis_effect_limits_def)
  qed
qed

lemma ps_boundary_related:
  assumes "i < length exons" "same_class_wider v v'"
  shows "rel_option (rel_sum (=) same_class_wider)
           (ps_boundary_cases c exons v i) (ps_boundary_cases c exons v' i)"
proof -
  have e: "endp v = endp v'" using assms(2) by (simp add: same_class_wider_def)
  have u: "rel_sum (=) same_class_wider
      (set_variant_cis_effect_limits exons (v\<lparr>score := s, annotation := a\<rparr>) i)
      (set_variant_cis_effect_limits exons (v'\<lparr>score := s, annotation := a\<rparr>) i)" for s a
    by (rule cis_related [OF assms(1) same_class_wider_update [OF assms(2)]])
  show ?thesis
    unfolding ps_boundary_cases_def e
    by (intro rel_option_if) (simp_all add: u)
qed

lemma ns_boundary_related:
  assumes "i < length exons" "same_class_wider v v'"
  shows "rel_option (rel_sum (=) same_class_wider)
           (ns_boundary_cases c exons v i) (ns_boundary_cases c exons v' i)"
proof -
  have e: "endp v = endp v'" using assms(2) by (simp add: same_class_wider_def)
  have u: "rel_sum (=) same_class_wider
      (set_variant_cis_effect_limits exons (v\<lparr>score := s, annotation := a\<rparr>) i)
      (set_variant_cis_effect_limits exons (v'\<lparr>score := s, annotation := a\<rparr>) i)" for s a
    by (rule cis_related [OF assms(1) same_class_wider_update [OF assms(2)]])
  show ?thesis
    unfolding ns_boundary_cases_def e
    by (intro rel_option_if) (simp_all add: u)
qed

lemma ps_iteration_related:
  assumes "i < length exons" "same_class_wider v v'"
  shows "rel_option (rel_sum (=) same_class_wider)
           (ps_iteration c exons v i) (ps_iteration c exons v' i)"
proof -
  have e: "endp v = endp v'" using assms(2) by (simp add: same_class_wider_def)
  show ?thesis
    unfolding ps_iteration_def e
    by (intro rel_option_if)
      (simp_all add: ps_boundary_related [OF assms] same_class_wider_update [OF assms(2)] assms(2))
qed

lemma ns_iteration_related:
  assumes "i < length exons" "same_class_wider v v'"
  shows "rel_option (rel_sum (=) same_class_wider)
           (ns_iteration c exons v i) (ns_iteration c exons v' i)"
proof -
  have e: "endp v = endp v'" using assms(2) by (simp add: same_class_wider_def)
  show ?thesis
    unfolding ns_iteration_def e
    by (intro rel_option_if)
      (simp_all add: ns_boundary_related [OF assms] same_class_wider_update [OF assms(2)] assms(2))
qed

lemma ps_loop_same_class_wider:
  assumes "same_class_wider v v'"
  shows "rel_sum (=) same_class_wider (ps_loop c exons v i) (ps_loop c exons v' i)"
  by (rule ps_loop_related) (simp_all add: ps_iteration_related assms)

lemma ns_loop_same_class_wider:
  assumes "same_class_wider v v'"
  shows "rel_sum (=) same_class_wider (ns_loop c exons v i) (ns_loop c exons v' i)"
  by (rule ns_loop_related) (simp_all add: ns_iteration_related assms)

lemma classifier_related:
  assumes "endp v = endp v'" "window_widened v' v"
  shows "rel_sum (=) same_class_wider
           (get_variant_overlaps_spliceregion c exons v)
           (get_variant_overlaps_spliceregion c exons v')"
proof -
  have r: "same_class_wider (v\<lparr>score := ''-1'', annotation := ''non_splice_region''\<rparr>)
             (v'\<lparr>score := ''-1'', annotation := ''non_splice_region''\<rparr>)"
    using assms by (simp add: same_class_wider_def window_widened_def)
  show ?thesis
    using assms(1) r ps_loop_same_class_wider [OF r, of c exons 0]
      ns_loop_same_class_wider [OF r, of c exons 0]
    by (simp add: get_variant_overlaps_spliceregion_def get_variant_overlaps_spliceregion_ps_def
        get_variant_overlaps_spliceregion_ns_def Let_def)
qed

lemma classifier_overwrites:
  "get_variant_overlaps_spliceregion c exons (v\<lparr>score := s, annotation := a\<rparr>)
     = get_variant_overlaps_spliceregion c exons v"
  by (simp add: get_variant_overlaps_spliceregion_def get_variant_overlaps_spliceregion_ps_def
      get_variant_overlaps_spliceregion_ns_def Let_def)

subsection \<open>The loop over the transcripts\<close>

lemma same_place_wider_trans:
  "same_place_wider a b \<Longrightarrow> same_place_wider b c \<Longrightarrow> same_place_wider a c"
  by (auto simp: same_place_wider_def window_widened_def)

lemma window_widened_trans:
  "window_widened a b \<Longrightarrow> window_widened b c \<Longrightarrow> window_widened a c"
  by (auto simp: window_widened_def)

lemma annotate_transcript_variant:
  assumes "annotate_transcript c gtf st t = Inr st'"
  shows "(skip_single_exon_genes c \<and> length (get_exons_from_transcript gtf t) = 1 \<and> st' = st) \<or>
         get_variant_overlaps_spliceregion c (get_exons_from_transcript gtf t) (variant st)
           = Inr (variant st')"
  using assms
  by (auto simp: annotate_transcript_def Let_def split: if_splits sum.splits)

lemma annotate_transcript_frame:
  assumes "annotate_transcript c gtf st t = Inr st'"
  shows "same_place_wider (variant st) (variant st')"
  using annotate_transcript_variant [OF assms] classifier_frame by auto

lemma transcripts_loop_frame:
  "transcripts_loop c gtf st ts = Inr st' \<Longrightarrow> same_place_wider (variant st) (variant st')"
proof (induction ts arbitrary: st)
  case Nil
  then show ?case by simp
next
  case (Cons u ts)
  then obtain st1 where 1: "annotate_transcript c gtf st u = Inr st1"
    and 2: "transcripts_loop c gtf st1 ts = Inr st'"
    by (auto split: sum.splits)
  show ?case
    using annotate_transcript_frame [OF 1] Cons.IH [OF 2] by (rule same_place_wider_trans)
qed

lemma transcripts_loop_covers:
  assumes "transcripts_loop c gtf st ts = Inr st'" and "t \<in> set ts"
    and "\<not> (skip_single_exon_genes c \<and> length (get_exons_from_transcript gtf t) = 1)"
    and "same_place_wider v0 (variant st)"
    and "get_variant_overlaps_spliceregion c (get_exons_from_transcript gtf t) v0 = Inr w"
  shows "window_widened w (variant st')"
  using assms(1,2,4)
proof (induction ts arbitrary: st)
  case Nil
  then show ?case by simp
next
  case (Cons u ts)
  from Cons.prems(1) obtain st1 where 1: "annotate_transcript c gtf st u = Inr st1"
    and 2: "transcripts_loop c gtf st1 ts = Inr st'"
    by (auto split: sum.splits)
  note f1 = annotate_transcript_frame [OF 1]
  note f2 = transcripts_loop_frame [OF 2]
  show ?case
  proof (cases "t = u")
    case True
    with annotate_transcript_variant [OF 1] assms(3)
    have r: "get_variant_overlaps_spliceregion c (get_exons_from_transcript gtf t) (variant st)
           = Inr (variant st1)" by auto
    have "rel_sum (=) same_class_wider
           (get_variant_overlaps_spliceregion c (get_exons_from_transcript gtf t) (variant st))
           (get_variant_overlaps_spliceregion c (get_exons_from_transcript gtf t) v0)"
      using Cons.prems(3) by (intro classifier_related) (simp_all add: same_place_wider_def)
    then have "window_widened w (variant st1)"
      by (simp add: r assms(5) same_class_wider_def)
    then show ?thesis
      using f2 by (auto simp: same_place_wider_def intro: window_widened_trans)
  next
    case False
    with Cons.prems(2) have "t \<in> set ts" by simp
    moreover have "same_place_wider v0 (variant st1)"
      using Cons.prems(3) f1 by (rule same_place_wider_trans)
    ultimately show ?thesis using 2 by (intro Cons.IH)
  qed
qed

text \<open>
  C10. Within one call of \<open>annotate_record_with_transcripts\<close> one variant is threaded
  through the classifications of all candidate transcripts. The classifier overwrites score
  and annotation on entry, so what it returns does not depend on the score and annotation
  the variant carries from the transcript before. The cis-effect window is never reset:
  after each transcript, and after any run of transcripts, \<open>cis_effect_start\<close> is at most and
  \<open>cis_effect_end\<close> at least what it was before. The window of the returned variant
  contains, for every candidate transcript that is classified (not skipped), the window
  that the classifier computes for that transcript alone from a fresh variant.
\<close>

theorem cis_window_accumulates:
  "get_variant_overlaps_spliceregion c exons (v\<lparr>score := s, annotation := a\<rparr>)
     = get_variant_overlaps_spliceregion c exons v \<and>
   (annotate_transcript c gtf st t = Inr st' \<longrightarrow> window_widened (variant st) (variant st')) \<and>
   (transcripts_loop c gtf st ts = Inr st' \<longrightarrow> window_widened (variant st) (variant st')) \<and>
   (annotate_record_with_transcripts c gtf bs chr pos = Inr r \<longrightarrow>
      (\<forall>t \<in> set (candidate_transcripts c gtf bs chr pos).
         \<not> (skip_single_exon_genes c \<and> length (get_exons_from_transcript gtf t) = 1) \<longrightarrow>
         (\<forall>w. get_variant_overlaps_spliceregion c (get_exons_from_transcript gtf t)
                 (new_AnnotatedVariant chr pos (pos + 1)) = Inr w \<longrightarrow>
              window_widened w r)))"
proof -
  have 1: "annotate_transcript c gtf st t = Inr st' \<longrightarrow> window_widened (variant st) (variant st')"
    using annotate_transcript_frame [of c gtf st t st'] by (simp add: same_place_wider_def)
  have 2: "transcripts_loop c gtf st ts = Inr st' \<longrightarrow> window_widened (variant st) (variant st')"
    using transcripts_loop_frame [of c gtf st ts st'] by (simp add: same_place_wider_def)
  have 3: "window_widened w r"
    if run: "annotate_record_with_transcripts c gtf bs chr pos = Inr r"
      and t: "t \<in> set (candidate_transcripts c gtf bs chr pos)"
      and ns: "\<not> (skip_single_exon_genes c \<and> length (get_exons_from_transcript gtf t) = 1)"
      and w: "get_variant_overlaps_spliceregion c (get_exons_from_transcript gtf t)
                 (new_AnnotatedVariant chr pos (pos + 1)) = Inr w" for t w
  proof -
    from run obtain stf where l: "transcripts_loop c gtf (initial_locals chr pos)
             (candidate_transcripts c gtf bs chr pos) = Inr stf" and r: "r = returned_variant stf"
      by (auto simp: annotate_record_transcripts split: sum.splits)
    have "window_widened w (variant stf)"
      using l t ns _ w by (rule transcripts_loop_covers) (simp add: initial_locals_def)
    then show ?thesis by (simp add: r returned_variant_def window_widened_def)
  qed
  show ?thesis using 1 2 3 by (simp add: classifier_overwrites)
qed

theorem cis_window_accumulates_witness:
  "annotate_record_with_transcripts default_options (test_gtf [''T2'', ''T1'']) test_bins ''1'' 300
     = Inr ((new_AnnotatedVariant ''1'' 300 301)
              \<lparr>score := ''1'', overlapping_genes := ''G1'', overlapping_transcripts := ''T2,T1'',
               overlapping_distances := ''1,1'',
               annotation := ''splicing_exonic,splicing_exonic'',
               cis_effect_start := 100, cis_effect_end := 600\<rparr>) \<and>
   ''T2'' \<in> set (candidate_transcripts default_options (test_gtf [''T2'', ''T1''])
                   test_bins ''1'' 300) \<and>
   \<not> (skip_single_exon_genes default_options \<and>
      length (get_exons_from_transcript (test_gtf [''T2'', ''T1'']) ''T2'') = 1) \<and>
   get_variant_overlaps_spliceregion default_options
     (get_exons_from_transcript (test_gtf [''T2'', ''T1'']) ''T2'')
     (new_AnnotatedVariant ''1'' 300 301)
     = Inr ((new_AnnotatedVariant ''1'' 300 301)
              \<lparr>score := ''1'', annotation := ''splicing_exonic'',
               cis_effect_start := 100, cis_effect_end := 600\<rparr>) \<and>
   get_variant_overlaps_spliceregion default_options
     (get_exons_from_transcript (test_gtf [''T2'', ''T1'']) ''T1'')
     (new_AnnotatedVariant ''1'' 300 301)
     = Inr ((new_AnnotatedVariant ''1'' 300 301)
              \<lparr>score := ''1'', annotation := ''splicing_exonic'',
               cis_effect_start := 100, cis_effect_end := 400\<rparr>) \<and>
   window_widened
     ((new_AnnotatedVariant ''1'' 300 301)
        \<lparr>score := ''1'', annotation := ''splicing_exonic'',
         cis_effect_start := 100, cis_effect_end := 600\<rparr>)
     ((new_AnnotatedVariant ''1'' 300 301)
        \<lparr>score := ''1'', overlapping_genes := ''G1'', overlapping_transcripts := ''T2,T1'',
         overlapping_distances := ''1,1'',
         annotation := ''splicing_exonic,splicing_exonic'',
         cis_effect_start := 100, cis_effect_end := 600\<rparr>)"
proof -
  have run: "annotate_record_with_transcripts default_options (test_gtf [''T2'', ''T1''])
       test_bins ''1'' 300
     = Inr ((new_AnnotatedVariant ''1'' 300 301)
              \<lparr>score := ''1'', overlapping_genes := ''G1'', overlapping_transcripts := ''T2,T1'',
               overlapping_distances := ''1,1'',
               annotation := ''splicing_exonic,splicing_exonic'',
               cis_effect_start := 100, cis_effect_end := 600\<rparr>)"
    by code_simp
  have cand: "''T2'' \<in> set (candidate_transcripts default_options (test_gtf [''T2'', ''T1''])
                   test_bins ''1'' 300)"
    by code_simp
  have ns: "\<not> (skip_single_exon_genes default_options \<and>
      length (get_exons_from_transcript (test_gtf [''T2'', ''T1'']) ''T2'') = 1)"
    by (simp add: test_gtf_def test_exons_def)
  have w2: "get_variant_overlaps_spliceregion default_options
     (get_exons_from_transcript (test_gtf [''T2'', ''T1'']) ''T2'')
     (new_AnnotatedVariant ''1'' 300 301)
     = Inr ((new_AnnotatedVariant ''1'' 300 301)
              \<lparr>score := ''1'', annotation := ''splicing_exonic'',
               cis_effect_start := 100, cis_effect_end := 600\<rparr>)"
    by code_simp
  have w1: "get_variant_overlaps_spliceregion default_options
     (get_exons_from_transcript (test_gtf [''T2'', ''T1'']) ''T1'')
     (new_AnnotatedVariant ''1'' 300 301)
     = Inr ((new_AnnotatedVariant ''1'' 300 301)
              \<lparr>score := ''1'', annotation := ''splicing_exonic'',
               cis_effect_start := 100, cis_effect_end := 400\<rparr>)"
    by code_simp
  have one: "new_AnnotatedVariant ''1'' 300 (300 + 1) = new_AnnotatedVariant ''1'' 300 301"
    by simp
  note acc = cis_window_accumulates [where c = default_options
      and gtf = "test_gtf [''T2'', ''T1'']" and bs = test_bins and chr = "''1''" and pos = 300,
      unfolded one]
  have "window_widened
     ((new_AnnotatedVariant ''1'' 300 301)
        \<lparr>score := ''1'', annotation := ''splicing_exonic'',
         cis_effect_start := 100, cis_effect_end := 600\<rparr>)
     ((new_AnnotatedVariant ''1'' 300 301)
        \<lparr>score := ''1'', overlapping_genes := ''G1'', overlapping_transcripts := ''T2,T1'',
         overlapping_distances := ''1,1'',
         annotation := ''splicing_exonic,splicing_exonic'',
         cis_effect_start := 100, cis_effect_end := 600\<rparr>)"
    using acc run cand ns w2 by blast
  with run cand ns w2 w1 show ?thesis by blast
qed

section \<open>The lists of genes, transcripts, distances and annotations\<close>

lemma comma_join_simps [simp]:
  "comma_join [] = ''NA''"
  "comma_join [x] = x"
  by (simp_all add: comma_join_def)

lemma comma_join_snoc:
  "xs \<noteq> [] \<Longrightarrow> comma_join (xs @ [t]) = comma_join xs @ '','' @ t"
  by (cases xs) (simp_all add: comma_join_def)

lemma comma_in_foldl:
  "ys \<noteq> [] \<Longrightarrow> CHR '','' \<in> set (foldl (\<lambda>acc y. acc @ '','' @ y) x ys)"
  by (induction ys rule: rev_induct) simp_all

lemma comma_join_not_NA:
  assumes "xs \<noteq> []" "hd xs \<noteq> ''NA''"
  shows "comma_join xs \<noteq> ''NA''"
proof (cases xs)
  case Nil
  with assms show ?thesis by simp
next
  case (Cons x ys)
  show ?thesis
  proof (cases "ys = []")
    case True
    with Cons assms show ?thesis by simp
  next
    case False
    then have "CHR '','' \<in> set (comma_join xs)"
      using Cons comma_in_foldl [of ys x] by (simp add: comma_join_def)
    moreover have "CHR '','' \<notin> set ''NA''" by simp
    ultimately show ?thesis by metis
  qed
qed

lemma first_seen_simps [simp]: "first_seen [] = []"
  by (simp add: first_seen_def)

lemma first_seen_snoc:
  "first_seen (xs @ [g]) = (if g \<in> set xs then first_seen xs else first_seen xs @ [g])"
  by (simp add: first_seen_def)

lemma set_first_seen [simp]: "set (first_seen xs) = set xs"
  by (simp add: first_seen_def)

lemma distinct_first_seen [simp]: "distinct (first_seen xs)"
  by (simp add: first_seen_def)


lemma classified_alike:
  assumes "same_place_wider v0 v" "get_variant_overlaps_spliceregion c exons v = Inr w'"
  shows "\<exists>w. get_variant_overlaps_spliceregion c exons v0 = Inr w \<and>
             annotation w = annotation w' \<and> score w = score w'"
proof -
  have "rel_sum (=) same_class_wider
          (get_variant_overlaps_spliceregion c exons v)
          (get_variant_overlaps_spliceregion c exons v0)"
    using assms(1) by (intro classifier_related) (simp_all add: same_place_wider_def)
  then show ?thesis
    unfolding assms(2)
    by (cases "get_variant_overlaps_spliceregion c exons v0")
      (simp_all add: same_class_wider_def)
qed

lemma annotate_transcript_lists:
  assumes inv: "lists_hold c gtf v0 st seen"
    and ok: "raised_error c gtf t = None"
    and na: "seen \<noteq> [] \<longrightarrow> hd seen \<noteq> ''NA''"
  shows "\<exists>st'. annotate_transcript c gtf st t = Inr st' \<and>
           lists_hold c gtf v0 st' (if splice_relevant c gtf v0 t then seen @ [t] else seen)"
proof -
  obtain st' where st': "annotate_transcript c gtf st t = Inr st'"
    using annotate_transcript_no_error [OF ok] by blast
  have wider: "same_place_wider v0 (variant st)" using inv by (simp add: lists_hold_def)
  have first: "(loc_transcripts st = ''NA'') = (seen = [])"
    using inv na comma_join_not_NA [of seen] by (auto simp: lists_hold_def)
  have ne: "get_exons_from_transcript gtf t \<noteq> []"
    using ok by (auto simp: raised_error_def Let_def split: if_splits)
  show ?thesis
  proof (cases "skip_single_exon_genes c \<and> length (get_exons_from_transcript gtf t) = 1")
    case True
    then have "annotate_transcript c gtf st t = Inr st"
      by (simp add: annotate_transcript_skip)
    moreover have "\<not> splice_relevant c gtf v0 t" using True by (simp add: splice_relevant_def)
    ultimately show ?thesis using inv by simp
  next
    case False
    with annotate_transcript_variant [OF st'] obtain wv
      where wv: "get_variant_overlaps_spliceregion c (get_exons_from_transcript gtf t) (variant st)
               = Inr wv" by auto
    have wider': "same_place_wider v0 wv"
      using wider classifier_frame [OF wv] by (rule same_place_wider_trans)
    from classified_alike [OF wider wv] obtain w
      where w: "get_variant_overlaps_spliceregion c (get_exons_from_transcript gtf t) v0 = Inr w"
        and lab: "annotation w = annotation wv"
        and sc: "score w = score wv"
      by blast
    have rel: "splice_relevant c gtf v0 t = (annotation wv \<noteq> ''non_splice_region'')"
      using False w lab by (simp add: splice_relevant_def)
    have tl: "transcript_label c gtf v0 t = annotation wv"
      and ts: "transcript_score c gtf v0 t = score wv"
      using w lab sc by (simp_all add: transcript_label_def transcript_score_def)
    let ?g = "get_gene_from_transcript gtf t"
    show ?thesis
    proof (cases "annotation wv = ''non_splice_region''")
      case True
      then have "annotate_transcript c gtf st t = Inr (st\<lparr>variant := wv\<rparr>)"
        using False ne wv by (auto simp: annotate_transcript_def Let_def)
      moreover have "lists_hold c gtf v0 (st\<lparr>variant := wv\<rparr>) seen"
        using inv wider' by (simp add: lists_hold_def)
      ultimately show ?thesis using rel True by simp
    next
      case relevant: False
      show ?thesis
      proof (cases "seen = []")
        case True
        then have "annotate_transcript c gtf st t
            = Inr (st\<lparr>variant := wv, loc_genes := ?g, loc_distances := score wv,
                      loc_transcripts := t,
                      unique_genes := insert ?g (unique_genes st),
                      annotations := annotation wv\<rparr>)"
          using False ne wv relevant first
          by (auto simp: annotate_transcript_def Let_def)
        moreover have "lists_hold c gtf v0
             (st\<lparr>variant := wv, loc_genes := ?g, loc_distances := score wv,
                      loc_transcripts := t,
                      unique_genes := insert ?g (unique_genes st),
                      annotations := annotation wv\<rparr>) [t]"
          using inv wider' True tl ts
          by (simp add: lists_hold_def first_seen_def)
        ultimately show ?thesis using rel relevant True by simp
      next
        case more: False
        have "annotate_transcript c gtf st t
            = Inr (st\<lparr>variant := wv,
                        loc_genes := (if ?g \<notin> unique_genes st
                                      then loc_genes st @ '','' @ ?g else loc_genes st),
                        unique_genes := (if ?g \<notin> unique_genes st
                                      then insert ?g (unique_genes st) else unique_genes st),
                        loc_distances := loc_distances st @ '','' @ score wv,
                        loc_transcripts := loc_transcripts st @ '','' @ t,
                        annotations := annotations st @ '','' @ annotation wv\<rparr>)"
          using False ne wv relevant first more
          by (auto simp: annotate_transcript_def Let_def)
        moreover have "first_seen (map (get_gene_from_transcript gtf) seen) \<noteq> []"
          using more by (metis list.map_disc_iff set_empty set_first_seen)
        then have "lists_hold c gtf v0
             (st\<lparr>variant := wv,
                        loc_genes := (if ?g \<notin> unique_genes st
                                      then loc_genes st @ '','' @ ?g else loc_genes st),
                        unique_genes := (if ?g \<notin> unique_genes st
                                      then insert ?g (unique_genes st) else unique_genes st),
                        loc_distances := loc_distances st @ '','' @ score wv,
                        loc_transcripts := loc_transcripts st @ '','' @ t,
                        annotations := annotations st @ '','' @ annotation wv\<rparr>) (seen @ [t])"
          using inv wider' more tl ts
          by (auto simp: lists_hold_def comma_join_snoc first_seen_snoc)
        ultimately show ?thesis using rel relevant by simp
      qed
    qed
  qed
qed

lemma transcripts_loop_lists:
  assumes "lists_hold c gtf v0 st seen"
    and "first_error c gtf ts = None"
    and "seen @ filter (splice_relevant c gtf v0) ts = [] \<or>
         hd (seen @ filter (splice_relevant c gtf v0) ts) \<noteq> ''NA''"
  shows "\<exists>st'. transcripts_loop c gtf st ts = Inr st' \<and>
           lists_hold c gtf v0 st' (seen @ filter (splice_relevant c gtf v0) ts)"
  using assms
proof (induction ts arbitrary: st seen)
  case Nil
  then show ?case by simp
next
  case (Cons t ts)
  from Cons.prems(2) have ok: "raised_error c gtf t = None"
    and rest: "first_error c gtf ts = None"
    by (simp_all split: option.splits)
  have na: "seen \<noteq> [] \<longrightarrow> hd seen \<noteq> ''NA''"
    using Cons.prems(3) by auto
  let ?seen = "if splice_relevant c gtf v0 t then seen @ [t] else seen"
  from annotate_transcript_lists [OF Cons.prems(1) ok na] obtain st1
    where 1: "annotate_transcript c gtf st t = Inr st1"
      and 2: "lists_hold c gtf v0 st1 ?seen"
    by blast
  have e: "?seen @ filter (splice_relevant c gtf v0) ts
         = seen @ filter (splice_relevant c gtf v0) (t # ts)"
    by simp
  have "\<exists>st'. transcripts_loop c gtf st1 ts = Inr st' \<and>
           lists_hold c gtf v0 st' (?seen @ filter (splice_relevant c gtf v0) ts)"
    using 2 rest Cons.prems(3) unfolding e [symmetric] by (rule Cons.IH)
  then show ?case unfolding e using 1 by simp
qed

lemma first_seen_one_gene:
  assumes "xs \<noteq> []" "\<forall>x \<in> set xs. x = g"
  shows "first_seen xs = [g]"
  using assms
proof (induction xs rule: rev_induct)
  case Nil
  then show ?case by simp
next
  case (snoc x xs)
  then have x: "x = g" by simp
  show ?case
  proof (cases "xs = []")
    case True
    with x show ?thesis by (simp add: first_seen_def)
  next
    case False
    then have "g \<in> set xs" using snoc.prems(2) by (cases xs) auto
    moreover have "first_seen xs = [g]" using False snoc by simp
    ultimately show ?thesis using x by (simp add: first_seen_snoc)
  qed
qed

text \<open>
  When no candidate raises an error and the first splice-relevant candidate is not named
  \<open>NA\<close>, the returned lists are those of the splice-relevant candidates in the order of
  the loops: every transcript with its score and label, every gene at its first occurrence.
\<close>

lemma lists_of_relevant_transcripts:
  assumes "first_error c gtf (candidate_transcripts c gtf bs chr pos) = None"
    and "rel = filter (splice_relevant c gtf (new_AnnotatedVariant chr pos (pos + 1)))
                 (candidate_transcripts c gtf bs chr pos)"
    and "rel = [] \<or> hd rel \<noteq> ''NA''"
  shows "\<exists>r. annotate_record_with_transcripts c gtf bs chr pos = Inr r \<and>
           overlapping_transcripts r = comma_join rel \<and>
           overlapping_distances r
             = comma_join (map (transcript_score c gtf (new_AnnotatedVariant chr pos (pos + 1))) rel) \<and>
           annotation r
             = comma_join (map (transcript_label c gtf (new_AnnotatedVariant chr pos (pos + 1))) rel) \<and>
           overlapping_genes r
             = comma_join (first_seen (map (get_gene_from_transcript gtf) rel))"
proof -
  let ?v0 = "new_AnnotatedVariant chr pos (pos + 1)"
  have init: "lists_hold c gtf ?v0 (initial_locals chr pos) []"
    by (simp add: lists_hold_def initial_locals_def)
  from transcripts_loop_lists [OF init assms(1)] assms(2,3) obtain st'
    where l: "transcripts_loop c gtf (initial_locals chr pos)
                (candidate_transcripts c gtf bs chr pos) = Inr st'"
      and h: "lists_hold c gtf ?v0 st' rel"
    by auto
  show ?thesis
    using l h by (simp add: annotate_record_transcripts returned_variant_def lists_hold_def)
qed

text \<open>
  C6 (as amended). For one variant, when no candidate transcript raises a fatal error, the
  splice-relevant candidates all belong to one gene, and the first of them is not named
  \<open>NA\<close> (the text that the source takes for "no entry yet"), the returned gene list is
  that gene, once, and the transcript, distance and annotation lists have one entry for each
  splice-relevant candidate, parallel to one another, in the order in which the three loops
  over levels, bins and transcripts meet them.
\<close>

theorem same_gene_listed_once:
  assumes "first_error c gtf (candidate_transcripts c gtf bs chr pos) = None"
    and "rel = filter (splice_relevant c gtf (new_AnnotatedVariant chr pos (pos + 1)))
                 (candidate_transcripts c gtf bs chr pos)"
    and "rel \<noteq> []" and "hd rel \<noteq> ''NA''"
    and "\<forall>t \<in> set rel. get_gene_from_transcript gtf t = g"
  shows "\<exists>r. annotate_record_with_transcripts c gtf bs chr pos = Inr r \<and>
           overlapping_genes r = g \<and>
           overlapping_transcripts r = comma_join rel \<and>
           overlapping_distances r
             = comma_join (map (transcript_score c gtf (new_AnnotatedVariant chr pos (pos + 1))) rel) \<and>
           annotation r
             = comma_join (map (transcript_label c gtf (new_AnnotatedVariant chr pos (pos + 1))) rel)"
proof -
  have "first_seen (map (get_gene_from_transcript gtf) rel) = [g]"
    using assms(3,5) by (intro first_seen_one_gene) auto
  then show ?thesis
    using lists_of_relevant_transcripts [OF assms(1,2)] assms(4) by auto
qed

theorem same_gene_listed_once_witness:
  "first_error default_options (test_gtf [''T1'', ''T2''])
     (candidate_transcripts default_options (test_gtf [''T1'', ''T2'']) test_bins ''1'' 198)
     = None \<and>
   filter (splice_relevant default_options (test_gtf [''T1'', ''T2''])
             (new_AnnotatedVariant ''1'' 198 199))
     (candidate_transcripts default_options (test_gtf [''T1'', ''T2'']) test_bins ''1'' 198)
     = [''T1'', ''T2''] \<and>
   map (get_gene_from_transcript (test_gtf [''T1'', ''T2''])) [''T1'', ''T2'']
     = [''G1'', ''G1''] \<and>
   (\<exists>r. annotate_record_with_transcripts default_options (test_gtf [''T1'', ''T2''])
           test_bins ''1'' 198 = Inr r \<and>
        overlapping_genes r = ''G1'' \<and>
        overlapping_transcripts r = ''T1,T2'' \<and>
        overlapping_distances r = ''1,1'' \<and>
        annotation r = ''splicing_exonic,splicing_exonic'')"
proof -
  let ?gtf = "test_gtf [''T1'', ''T2'']"
  have one: "new_AnnotatedVariant ''1'' 198 (198 + 1) = new_AnnotatedVariant ''1'' 198 199"
    by simp
  have fe: "first_error default_options ?gtf
     (candidate_transcripts default_options ?gtf test_bins ''1'' 198) = None"
    by code_simp
  have rel: "[''T1'', ''T2''] = filter (splice_relevant default_options ?gtf
             (new_AnnotatedVariant ''1'' 198 199))
     (candidate_transcripts default_options ?gtf test_bins ''1'' 198)"
    by code_simp
  have g: "map (get_gene_from_transcript ?gtf) [''T1'', ''T2''] = [''G1'', ''G1'']"
    by (simp add: test_gtf_def)
  then have g': "\<forall>t \<in> set [''T1'', ''T2'']. get_gene_from_transcript ?gtf t = ''G1''"
    by simp
  have sc: "transcript_score default_options ?gtf (new_AnnotatedVariant ''1'' 198 199) ''T1''
              = ''1''"
    "transcript_score default_options ?gtf (new_AnnotatedVariant ''1'' 198 199) ''T2'' = ''1''"
    by code_simp+
  have lb: "transcript_label default_options ?gtf (new_AnnotatedVariant ''1'' 198 199) ''T1''
              = ''splicing_exonic''"
    "transcript_label default_options ?gtf (new_AnnotatedVariant ''1'' 198 199) ''T2''
              = ''splicing_exonic''"
    by code_simp+
  have cj: "comma_join [''T1'', ''T2''] = ''T1,T2''" "comma_join [''1'', ''1''] = ''1,1''"
    "comma_join [''splicing_exonic'', ''splicing_exonic''] = ''splicing_exonic,splicing_exonic''"
    by (simp_all add: comma_join_def)
  have "\<exists>r. annotate_record_with_transcripts default_options ?gtf test_bins ''1'' 198 = Inr r \<and>
        overlapping_genes r = ''G1'' \<and>
        overlapping_transcripts r = ''T1,T2'' \<and>
        overlapping_distances r = ''1,1'' \<and>
        annotation r = ''splicing_exonic,splicing_exonic''"
    using same_gene_listed_once [where c = default_options and gtf = ?gtf and bs = test_bins
        and chr = "''1''" and pos = 198 and rel = "[''T1'', ''T2'']" and g = "''G1''",
        unfolded one, OF fe rel _ _ g']
    by (simp add: sc lb cj)
  with fe rel [symmetric] g show ?thesis by (intro conjI)
qed

text \<open>
  The claim as stated fails when the first splice-relevant transcript is named \<open>NA\<close>. The
  source tests \<open>overlapping_transcripts != "NA"\<close> to find out whether an entry was
  recorded before, so such a first entry looks like none: for the two splice-relevant
  transcripts \<open>NA\<close> and \<open>T2\<close> of the gene \<open>G1\<close> the second one overwrites the lists,
  and the returned variant has one transcript, one distance and one annotation, not two.
\<close>

theorem transcript_named_NA_loses_entries:
  "candidate_transcripts default_options (test_gtf [''NA'', ''T2'']) test_bins ''1'' 198
     = [''NA'', ''T2''] \<and>
   filter (splice_relevant default_options (test_gtf [''NA'', ''T2''])
             (new_AnnotatedVariant ''1'' 198 199)) [''NA'', ''T2'']
     = [''NA'', ''T2''] \<and>
   map (get_gene_from_transcript (test_gtf [''NA'', ''T2''])) [''NA'', ''T2'']
     = [''G1'', ''G1''] \<and>
   annotate_record_with_transcripts default_options (test_gtf [''NA'', ''T2'']) test_bins ''1'' 198
     = Inr ((new_AnnotatedVariant ''1'' 198 199)
              \<lparr>score := ''1'', overlapping_genes := ''G1'', overlapping_transcripts := ''T2'',
               overlapping_distances := ''1'', annotation := ''splicing_exonic'',
               cis_effect_start := 100, cis_effect_end := 400\<rparr>)"
proof -
  have "candidate_transcripts default_options (test_gtf [''NA'', ''T2'']) test_bins ''1'' 198
     = [''NA'', ''T2'']"
    by code_simp
  moreover have "filter (splice_relevant default_options (test_gtf [''NA'', ''T2''])
             (new_AnnotatedVariant ''1'' 198 199)) [''NA'', ''T2'']
     = [''NA'', ''T2'']"
    by code_simp
  moreover have "map (get_gene_from_transcript (test_gtf [''NA'', ''T2''])) [''NA'', ''T2'']
     = [''G1'', ''G1'']"
    by (simp add: test_gtf_def)
  moreover have "annotate_record_with_transcripts default_options (test_gtf [''NA'', ''T2''])
       test_bins ''1'' 198
     = Inr ((new_AnnotatedVariant ''1'' 198 199)
              \<lparr>score := ''1'', overlapping_genes := ''G1'', overlapping_transcripts := ''T2'',
               overlapping_distances := ''1'', annotation := ''splicing_exonic'',
               cis_effect_start := 100, cis_effect_end := 400\<rparr>)"
    by code_simp
  ultimately show ?thesis by (intro conjI)
qed

end
